theory Spec2Isabelle
  imports Main "HOL-Library.Word"
begin

unbundle bit_operations_syntax

section \<open>Bytes, errors and the cipher interface\<close>

text \<open>
  Go's \<open>byte\<close> is an 8-bit word and \<open>uint64\<close> a 64-bit word. Slice lengths, block
  sizes and block counts are non-negative and far below the machine limits, so they are
  natural numbers. A \<open>fileID\<close> of type \<open>[]byte\<close> may be \<open>nil\<close> (the source tests
  \<open>fileID != nil\<close>), which is \<open>None\<close> here.
\<close>

type_synonym byte = "8 word"
type_synonym uint64 = "64 word"

text \<open>
  Every way in which the functions of \<open>contentenc\<close> fail: the three error returns of
  \<open>DecryptBlock\<close>, and the calls of \<open>log.Panic\<close>/\<open>log.Panicf\<close> (and the runtime's
  division by zero in \<open>New\<close>).
\<close>

datatype error =
    ErrBlockTooShort
  | ErrAllZeroNonce
  | ErrAEADOpen
  | PanicWrongFileIDLength
  | PanicWrongNonceLength
  | PanicUnexpectedCiphertextLength
  | PanicNotSIV
  | PanicUnalignedMaxKernelWrite
  | PanicDivideByZero

definition is_panic :: "error \<Rightarrow> bool" where
  "is_panic e = (e \<noteq> ErrBlockTooShort \<and> e \<noteq> ErrAllZeroNonce \<and> e \<noteq> ErrAEADOpen)"

datatype AEADTypeEnum = BackendGoGCM | BackendOpenSSL | BackendAESSIV | BackendXChaCha20Poly1305

text \<open>
  \<open>cryptocore.CryptoCore\<close> as far as \<open>contentenc\<close> uses it. The AEAD cipher is Go's
  \<open>cipher.AEAD\<close> interface: \<open>Seal(dst, nonce, plaintext, ad)\<close> appends the sealed
  text to \<open>dst\<close>, \<open>Open(dst, nonce, ciphertext, ad)\<close> appends the opened text to
  \<open>dst\<close> or returns an error. The two fields below are the appended parts; the key is
  inside them.
\<close>

record CryptoCore =
  AEADCipher_Seal :: "byte list \<Rightarrow> byte list \<Rightarrow> byte list \<Rightarrow> byte list"
  AEADCipher_Open :: "byte list \<Rightarrow> byte list \<Rightarrow> byte list \<Rightarrow> byte list option"
  AEADBackend :: AEADTypeEnum
  IVLen :: nat

text \<open>
  Modelled from the spec: the constants \<open>cryptocore.AuthTagLen\<close> and
  \<open>contentenc.headerIDLen\<close> are not in the source tree. The spec gives a 16-byte
  file-ID; the tag length follows from the comments of \<open>ContentEnc\<close> (a 4096-byte
  block with a 128-bit IV is 4128 bytes of ciphertext).
\<close>

definition AuthTagLen :: nat where
  "AuthTagLen = 16"

definition headerIDLen :: nat where
  "headerIDLen = 16"

section \<open>Parallel driver\<close>

text \<open>
  The driver that \<open>content.go\<close> calls (it has \<open>ShouldUseBatch\<close>,
  \<open>ProcessBlocksBatch\<close> and \<open>ProcessBlocksOptimized\<close>). \<open>cpuCount\<close> is what
  \<open>runtime.NumCPU()\<close> returned in \<open>New\<close>.
\<close>

record ParallelCrypto =
  enabled :: bool
  cpuCount :: nat
  hasAVX :: bool
  hasAVX2 :: bool
  hasAES :: bool

definition ParallelThreshold :: nat where
  "ParallelThreshold = 4"

definition MaxParallelWorkers :: nat where
  "MaxParallelWorkers = 16"

definition MinParallelWorkers :: nat where
  "MinParallelWorkers = 2"

definition BatchThreshold :: nat where
  "BatchThreshold = 2"

definition detectCPUFeatures :: "ParallelCrypto \<Rightarrow> ParallelCrypto" where
  "detectCPUFeatures pc = pc\<lparr>hasAVX := True, hasAVX2 := True, hasAES := True\<rparr>"

text \<open>\<open>parallelcrypto.New\<close>, with the result of \<open>runtime.NumCPU()\<close> as argument.\<close>

definition New_ParallelCrypto :: "nat \<Rightarrow> ParallelCrypto" where
  "New_ParallelCrypto numCPU =
     detectCPUFeatures \<lparr>enabled = True, cpuCount = numCPU,
                        hasAVX = False, hasAVX2 = False, hasAES = False\<rparr>"

definition Disable :: "ParallelCrypto \<Rightarrow> ParallelCrypto" where
  "Disable pc = pc\<lparr>enabled := False\<rparr>"

definition Enable :: "ParallelCrypto \<Rightarrow> ParallelCrypto" where
  "Enable pc = pc\<lparr>enabled := True\<rparr>"

definition ShouldUseParallel :: "ParallelCrypto \<Rightarrow> nat \<Rightarrow> bool" where
  "ShouldUseParallel pc blockCount =
     (if \<not> enabled pc then False
      else if cpuCount pc < MinParallelWorkers then False
      else blockCount \<ge> ParallelThreshold)"

definition ShouldUseBatch :: "ParallelCrypto \<Rightarrow> nat \<Rightarrow> bool" where
  "ShouldUseBatch pc blockCount =
     (if \<not> enabled pc then False else blockCount \<ge> BatchThreshold)"

section \<open>Content encryption\<close>

record ContentEnc =
  cryptoCore :: CryptoCore
  plainBS :: nat
  cipherBS :: nat
  allZeroBlock :: "byte list"
  allZeroNonce :: "byte list"
  parallelCrypto :: ParallelCrypto

text \<open>
  \<open>contentenc.New\<close>. \<open>fuse.MAX_KERNEL_WRITE\<close> belongs to the FUSE library and
  \<open>runtime.NumCPU()\<close> to the machine: both are arguments. The remainder by a zero
  block size is a run-time panic in Go. The four buffer pools only recycle memory and
  are left out.
\<close>

definition New :: "nat \<Rightarrow> nat \<Rightarrow> CryptoCore \<Rightarrow> nat \<Rightarrow> error + ContentEnc" where
  "New MAX_KERNEL_WRITE numCPU cc plainBS' =
     (if plainBS' = 0 then Inl PanicDivideByZero
      else if MAX_KERNEL_WRITE mod plainBS' \<noteq> 0 then Inl PanicUnalignedMaxKernelWrite
      else let cipherBS' = plainBS' + IVLen cc + AuthTagLen
           in Inr \<lparr>cryptoCore = cc,
                   plainBS = plainBS',
                   cipherBS = cipherBS',
                   allZeroBlock = replicate cipherBS' 0,
                   allZeroNonce = replicate (IVLen cc) 0,
                   parallelCrypto = New_ParallelCrypto numCPU\<rparr>)"

text \<open>
  Modelled from the spec: \<open>BlockOverhead\<close> is not in the source tree; the comment of
  the \<open>cipherBS\<close> field defines it as \<open>cipherBS - plainBS\<close>.
\<close>

definition BlockOverhead :: "ContentEnc \<Rightarrow> nat" where
  "BlockOverhead be = cipherBS be - plainBS be"

text \<open>
  \<open>binary.BigEndian.PutUint64\<close>: byte \<open>i\<close> of the result is \<open>byte(v >> (56 - 8*i))\<close>.
\<close>

definition PutUint64 :: "uint64 \<Rightarrow> byte list" where
  "PutUint64 v = map (\<lambda>i. ucast (drop_bit (56 - 8 * i) v)) [0..<8]"

definition concatAD :: "uint64 \<Rightarrow> byte list option \<Rightarrow> error + byte list" where
  "concatAD blockNo fileID =
     (case fileID of
        None \<Rightarrow> Inr (PutUint64 blockNo)
      | Some fid \<Rightarrow>
          if length fid \<noteq> headerIDLen then Inl PanicWrongFileIDLength
          else Inr (PutUint64 blockNo @ fid))"

definition DecryptBlock ::
  "ContentEnc \<Rightarrow> byte list \<Rightarrow> uint64 \<Rightarrow> byte list option \<Rightarrow> error + byte list" where
  "DecryptBlock be ciphertext blockNo fileID =
     (if length ciphertext = 0 then Inr ciphertext
      else if ciphertext = allZeroBlock be then Inr (replicate (plainBS be) 0)
      else if length ciphertext < IVLen (cryptoCore be) then Inl ErrBlockTooShort
      else let nonce = take (IVLen (cryptoCore be)) ciphertext in
        if nonce = allZeroNonce be then Inl ErrAllZeroNonce
        else let ciphertext' = drop (IVLen (cryptoCore be)) ciphertext in
          case concatAD blockNo fileID of
            Inl e \<Rightarrow> Inl e
          | Inr aData \<Rightarrow>
              (case AEADCipher_Open (cryptoCore be) nonce ciphertext' aData of
                 None \<Rightarrow> Inl ErrAEADOpen
               | Some plaintext \<Rightarrow> Inr plaintext))"

definition doEncryptBlock ::
  "ContentEnc \<Rightarrow> byte list \<Rightarrow> uint64 \<Rightarrow> byte list option \<Rightarrow> byte list \<Rightarrow> error + byte list" where
  "doEncryptBlock be plaintext blockNo fileID nonce =
     (if length plaintext = 0 then Inr plaintext
      else if length nonce \<noteq> IVLen (cryptoCore be) then Inl PanicWrongNonceLength
      else case concatAD blockNo fileID of
             Inl e \<Rightarrow> Inl e
           | Inr aData \<Rightarrow>
               let cBlock = nonce;
                   ciphertext = cBlock @ AEADCipher_Seal (cryptoCore be) nonce plaintext aData;
                   overhead = BlockOverhead be
               in if length plaintext + overhead \<noteq> length ciphertext
                  then Inl PanicUnexpectedCiphertextLength
                  else Inr ciphertext)"

text \<open>
  \<open>EncryptBlock\<close> draws its nonce from \<open>cryptoCore.IVGenerator.Get()\<close>; the drawn
  nonce is the first argument here.
\<close>

definition EncryptBlock ::
  "byte list \<Rightarrow> ContentEnc \<Rightarrow> byte list \<Rightarrow> uint64 \<Rightarrow> byte list option \<Rightarrow> error + byte list" where
  "EncryptBlock drawn be plaintext blockNo fileID =
     (let nonce = drawn in doEncryptBlock be plaintext blockNo fileID nonce)"

definition EncryptBlockNonce ::
  "ContentEnc \<Rightarrow> byte list \<Rightarrow> uint64 \<Rightarrow> byte list option \<Rightarrow> byte list \<Rightarrow> error + byte list" where
  "EncryptBlockNonce be plaintext blockNo fileID nonce =
     (if AEADBackend (cryptoCore be) \<noteq> BackendAESSIV then Inl PanicNotSIV
      else doEncryptBlock be plaintext blockNo fileID nonce)"

section \<open>A small cipher for the concrete instances\<close>

text \<open>
  The theorems below hold for every cipher behind the \<open>cipher.AEAD\<close> interface. Their
  hypotheses are discharged on this one: the body is the plaintext with every byte
  XORed with a one-byte key, the 16-byte tag is the XOR of all bytes of nonce, body and
  associated data followed by 15 zero bytes.
\<close>

definition xor_all :: "byte list \<Rightarrow> byte" where
  "xor_all xs = fold (XOR) xs 0"

definition toy_tag :: "byte list \<Rightarrow> byte list \<Rightarrow> byte list \<Rightarrow> byte list" where
  "toy_tag nonce body ad = xor_all (nonce @ body @ ad) # replicate 15 0"

definition toy_Seal :: "byte \<Rightarrow> byte list \<Rightarrow> byte list \<Rightarrow> byte list \<Rightarrow> byte list" where
  "toy_Seal key nonce plaintext ad =
     (let body = map (\<lambda>b. b XOR key) plaintext in body @ toy_tag nonce body ad)"

definition toy_Open :: "byte \<Rightarrow> byte list \<Rightarrow> byte list \<Rightarrow> byte list \<Rightarrow> byte list option" where
  "toy_Open key nonce ciphertext ad =
     (if length ciphertext < 16 then None
      else let body = take (length ciphertext - 16) ciphertext;
               tag = drop (length ciphertext - 16) ciphertext
           in if tag = toy_tag nonce body ad then Some (map (\<lambda>b. b XOR key) body) else None)"

definition toy_cc :: CryptoCore where
  "toy_cc = \<lparr>AEADCipher_Seal = toy_Seal 90, AEADCipher_Open = toy_Open 90,
             AEADBackend = BackendGoGCM, IVLen = 16\<rparr>"

definition toy_be :: ContentEnc where
  "toy_be = \<lparr>cryptoCore = toy_cc, plainBS = 4096, cipherBS = 4128,
             allZeroBlock = replicate 4128 0, allZeroNonce = replicate 16 0,
             parallelCrypto = New_ParallelCrypto 4\<rparr>"

section \<open>Contracts of the external pieces\<close>

text \<open>
  What \<open>contentenc\<close> relies on from a \<open>cipher.AEAD\<close>: opening what was sealed under
  the same nonce and associated data gives the plaintext back, and sealing adds exactly
  the tag. (\<open>doEncryptBlock\<close> panics when the second part fails.)
\<close>

definition AEAD_correct :: "CryptoCore \<Rightarrow> bool" where
  "AEAD_correct cc = (\<forall>nonce plaintext ad. length nonce = IVLen cc \<longrightarrow>
      AEADCipher_Open cc nonce (AEADCipher_Seal cc nonce plaintext ad) ad = Some plaintext \<and>
      length (AEADCipher_Seal cc nonce plaintext ad) = length plaintext + AuthTagLen)"

text \<open>A file-ID that \<open>concatAD\<close> accepts: \<open>nil\<close>, or \<open>headerIDLen\<close> bytes.\<close>

definition valid_fileID :: "byte list option \<Rightarrow> bool" where
  "valid_fileID fileID = (case fileID of None \<Rightarrow> True | Some fid \<Rightarrow> length fid = headerIDLen)"

text \<open>
  What \<open>doEncryptBlock\<close> gives over the small cipher for the plaintext \<open>[72, 105]\<close>,
  block 3, file-ID sixteen times 1 and nonce sixteen times 7.
\<close>

definition example_sealed :: "byte list" where
  "example_sealed = replicate 16 7 @ [18, 51, 34] @ replicate 15 0"

text \<open>
  A single-bit modification of a byte string: bit \<open>k\<close> of byte \<open>i\<close> is inverted.
\<close>

definition flip_bit_at :: "nat \<Rightarrow> nat \<Rightarrow> byte list \<Rightarrow> byte list" where
  "flip_bit_at i k xs = xs[i := (xs ! i) XOR push_bit k 1]"

text \<open>
  The integrity that \<open>contentenc\<close> expects from its cipher, for one inverted bit: if
  any bit of \<open>nonce \<parallel> Seal(nonce, plaintext, ad)\<close> is inverted, \<open>Open\<close> under the
  (possibly modified) nonce and the same associated data fails.
\<close>

definition AEAD_detects_bit_flips :: "CryptoCore \<Rightarrow> bool" where
  "AEAD_detects_bit_flips cc = (\<forall>nonce plaintext ad i k.
      length nonce = IVLen cc \<longrightarrow>
      i < length (nonce @ AEADCipher_Seal cc nonce plaintext ad) \<longrightarrow> k < 8 \<longrightarrow>
      AEADCipher_Open cc
        (take (IVLen cc) (flip_bit_at i k (nonce @ AEADCipher_Seal cc nonce plaintext ad)))
        (drop (IVLen cc) (flip_bit_at i k (nonce @ AEADCipher_Seal cc nonce plaintext ad)))
        ad = None)"

text \<open>The same block as \<open>example_sealed\<close>, under the nonce \<open>01 00 \<dots> 00\<close>.\<close>

definition example_sealed_one :: "byte list" where
  "example_sealed_one = (1 # replicate 15 0) @ [18, 51, 35] @ replicate 15 0"

section \<open>Key derivation parameters\<close>

text \<open>
  Go's \<open>int\<close> is a signed 64-bit word; the validation only compares, which is
  \<open>sint a < sint b\<close>. \<open>len\<close> of a slice is a natural number.
\<close>

type_synonym go_int = "64 word"
type_synonym uint32 = "32 word"
type_synonym uint8 = "8 word"

text \<open>
  Modelled from the spec: \<open>cryptocore.KeyLen\<close> is not in the source tree. The master
  key and the purpose keys are 32 bytes; \<open>scryptMinSaltLen\<close>'s comment says that the
  salts drawn with \<open>RandBytes(cryptocore.KeyLen)\<close> are 32 bytes.
\<close>

definition cryptocore_KeyLen :: nat where
  "cryptocore_KeyLen = 32"

definition Argon2idMinMemory :: nat where
  "Argon2idMinMemory = 16 * 1024"

definition Argon2idMinIterations :: nat where
  "Argon2idMinIterations = 1"

definition Argon2idMinParallelism :: nat where
  "Argon2idMinParallelism = 1"

definition Argon2idMinSaltLen :: nat where
  "Argon2idMinSaltLen = 16"

definition scryptMinR :: int where
  "scryptMinR = 8"

definition scryptMinP :: int where
  "scryptMinP = 1"

definition scryptMinLogN :: nat where
  "scryptMinLogN = 10"

definition scryptMinSaltLen :: nat where
  "scryptMinSaltLen = 32"

record Argon2idKDF =
  Argon2id_Salt :: "byte list"
  Argon2id_Memory :: uint32
  Argon2id_Iterations :: uint32
  Argon2id_Parallelism :: uint8
  Argon2id_KeyLen :: uint32

record ScryptKDF =
  Scrypt_Salt :: "byte list"
  Scrypt_N :: go_int
  Scrypt_R :: go_int
  Scrypt_P :: go_int
  Scrypt_KeyLen :: go_int

text \<open>The error values that the two \<open>validateParams\<close> build with \<open>fmt.Errorf\<close>.\<close>

datatype params_error =
    Argon2idMemoryBelowMinimum
  | Argon2idIterationsBelowMinimum
  | Argon2idParallelismBelowMinimum
  | Argon2idSaltLengthBelowMinimum
  | Argon2idKeyLengthBelowMinimum
  | ScryptnTooLow
  | ScryptRBelowMinimum
  | ScryptPBelowMinimum
  | ScryptSaltLengthBelowMinimum
  | ScryptKeyLenBelowMinimum

definition Argon2idKDF_validateParams :: "Argon2idKDF \<Rightarrow> params_error option" where
  "Argon2idKDF_validateParams a =
     (if unat (Argon2id_Memory a) < Argon2idMinMemory then Some Argon2idMemoryBelowMinimum
      else if unat (Argon2id_Iterations a) < Argon2idMinIterations
        then Some Argon2idIterationsBelowMinimum
      else if unat (Argon2id_Parallelism a) < Argon2idMinParallelism
        then Some Argon2idParallelismBelowMinimum
      else if length (Argon2id_Salt a) < Argon2idMinSaltLen
        then Some Argon2idSaltLengthBelowMinimum
      else if unat (Argon2id_KeyLen a) < cryptocore_KeyLen
        then Some Argon2idKeyLengthBelowMinimum
      else None)"

definition ScryptKDF_validateParams :: "ScryptKDF \<Rightarrow> params_error option" where
  "ScryptKDF_validateParams s =
     (let minN = (2 :: int) ^ scryptMinLogN in
      if sint (Scrypt_N s) < minN then Some ScryptnTooLow
      else if sint (Scrypt_R s) < scryptMinR then Some ScryptRBelowMinimum
      else if sint (Scrypt_P s) < scryptMinP then Some ScryptPBelowMinimum
      else if length (Scrypt_Salt s) < scryptMinSaltLen then Some ScryptSaltLengthBelowMinimum
      else if sint (Scrypt_KeyLen s) < int cryptocore_KeyLen then Some ScryptKeyLenBelowMinimum
      else None)"

text \<open>
  \<open>DeriveKey\<close> ends the process with \<open>os.Exit(exitcodes.ScryptParams)\<close> when the
  validation fails, and the scrypt one panics when \<open>scrypt.Key\<close> returns an error. The
  two derivation functions belong to \<open>golang.org/x/crypto\<close> and are arguments.
\<close>

datatype derive_failure = Exit_ScryptParams params_error | Panic_DeriveKeyFailed

definition Argon2idKDF_DeriveKey ::
  "(byte list \<Rightarrow> byte list \<Rightarrow> uint32 \<Rightarrow> uint32 \<Rightarrow> uint8 \<Rightarrow> uint32 \<Rightarrow> byte list) \<Rightarrow>
   Argon2idKDF \<Rightarrow> byte list \<Rightarrow> derive_failure + byte list" where
  "Argon2idKDF_DeriveKey argon2_IDKey a pw =
     (case Argon2idKDF_validateParams a of
        Some err \<Rightarrow> Inl (Exit_ScryptParams err)
      | None \<Rightarrow>
          Inr (argon2_IDKey pw (Argon2id_Salt a) (Argon2id_Iterations a) (Argon2id_Memory a)
                 (Argon2id_Parallelism a) (Argon2id_KeyLen a)))"

definition ScryptKDF_DeriveKey ::
  "(byte list \<Rightarrow> byte list \<Rightarrow> go_int \<Rightarrow> go_int \<Rightarrow> go_int \<Rightarrow> go_int \<Rightarrow> byte list option) \<Rightarrow>
   ScryptKDF \<Rightarrow> byte list \<Rightarrow> derive_failure + byte list" where
  "ScryptKDF_DeriveKey scrypt_Key s pw =
     (case ScryptKDF_validateParams s of
        Some err \<Rightarrow> Inl (Exit_ScryptParams err)
      | None \<Rightarrow>
          (case scrypt_Key pw (Scrypt_Salt s) (Scrypt_N s) (Scrypt_R s) (Scrypt_P s)
                  (Scrypt_KeyLen s) of
             None \<Rightarrow> Inl Panic_DeriveKeyFailed
           | Some k \<Rightarrow> Inr k))"

text \<open>Parameter sets and stand-ins for the two library functions, for the instances.\<close>

definition weak_scrypt :: ScryptKDF where
  "weak_scrypt = \<lparr>Scrypt_Salt = replicate 32 0, Scrypt_N = 512, Scrypt_R = 8, Scrypt_P = 1,
                  Scrypt_KeyLen = 32\<rparr>"

definition floor_scrypt :: ScryptKDF where
  "floor_scrypt = \<lparr>Scrypt_Salt = replicate 32 0, Scrypt_N = 1024, Scrypt_R = 8, Scrypt_P = 1,
                   Scrypt_KeyLen = 32\<rparr>"

definition weak_argon2id :: Argon2idKDF where
  "weak_argon2id = \<lparr>Argon2id_Salt = replicate 16 0, Argon2id_Memory = 16383,
                     Argon2id_Iterations = 1, Argon2id_Parallelism = 1, Argon2id_KeyLen = 32\<rparr>"

definition floor_argon2id :: Argon2idKDF where
  "floor_argon2id = \<lparr>Argon2id_Salt = replicate 16 0, Argon2id_Memory = 16384,
                      Argon2id_Iterations = 1, Argon2id_Parallelism = 1, Argon2id_KeyLen = 32\<rparr>"

definition toy_IDKey ::
  "byte list \<Rightarrow> byte list \<Rightarrow> uint32 \<Rightarrow> uint32 \<Rightarrow> uint8 \<Rightarrow> uint32 \<Rightarrow> byte list" where
  "toy_IDKey pw salt time memory threads keyLen = replicate (unat keyLen) (xor_all (pw @ salt))"

definition toy_scrypt_Key ::
  "byte list \<Rightarrow> byte list \<Rightarrow> go_int \<Rightarrow> go_int \<Rightarrow> go_int \<Rightarrow> go_int \<Rightarrow> byte list option" where
  "toy_scrypt_Key pw salt n r p keyLen = Some (replicate (unat keyLen) (xor_all (pw @ salt)))"

section \<open>Worker count and shards\<close>

text \<open>
  \<open>GetOptimalWorkerCount\<close> of the CPU-aware driver. The source scales the CPU count
  in floating point, \<open>int(float64(workers) * 1.5)\<close> and \<open>int(float64(workers) * 1.2)\<close>.
  For a CPU count these are \<open>(workers * 3) div 2\<close> and \<open>(workers * 6) div 5\<close>: the
  first product is exact in binary64, the second is rounded to the integer whenever
  \<open>workers\<close> is a multiple of 5 and is otherwise at least 0.2 away from an integer.
\<close>

definition GetOptimalWorkerCount :: "ParallelCrypto \<Rightarrow> nat \<Rightarrow> nat" where
  "GetOptimalWorkerCount pc blockCount =
     (if \<not> enabled pc then 1
      else if blockCount < ParallelThreshold then 1
      else if cpuCount pc < MinParallelWorkers then 1
      else let workers = cpuCount pc;
               workers = (if hasAVX2 pc \<and> hasAES pc then (workers * 3) div 2
                          else if hasAVX pc then (workers * 6) div 5
                          else workers);
               workers = (if workers > MaxParallelWorkers then MaxParallelWorkers else workers);
               workers = (if workers > blockCount then blockCount else workers)
           in workers)"

text \<open>
  The driver of \<open>parallelcrypto.go\<close> without CPU features: its only field is
  \<open>enabled\<close>, it asks \<open>runtime.NumCPU()\<close> at each call (the first argument here), and
  its threshold and worker limit are both 8.
\<close>

record PlainParallelCrypto =
  plain_enabled :: bool

definition Plain_ParallelThreshold :: nat where
  "Plain_ParallelThreshold = 8"

definition Plain_MaxParallelWorkers :: nat where
  "Plain_MaxParallelWorkers = 8"

definition Plain_MinParallelWorkers :: nat where
  "Plain_MinParallelWorkers = 2"

definition Plain_GetOptimalWorkerCount :: "nat \<Rightarrow> PlainParallelCrypto \<Rightarrow> nat \<Rightarrow> nat" where
  "Plain_GetOptimalWorkerCount numCPU pc blockCount =
     (if \<not> plain_enabled pc then 1
      else if blockCount < Plain_ParallelThreshold then 1
      else let cpuCount = numCPU in
        if cpuCount < Plain_MinParallelWorkers then 1
        else let workers = cpuCount;
                 workers = (if workers > Plain_MaxParallelWorkers
                            then Plain_MaxParallelWorkers else workers);
                 workers = (if workers > blockCount then blockCount else workers)
             in workers)"

text \<open>
  \<open>ProcessBlocksParallel\<close> starts one goroutine per worker and waits for all of them.
  Its model is the list of the calls \<open>processFunc(startIdx, endIdx)\<close>, by worker ID;
  the order in which the calls run is not fixed. (The quotient by \<open>workers\<close> is only
  reached when \<open>ShouldUseParallel\<close> holds, and then \<open>workers\<close> is at least 2.)
\<close>

definition ProcessBlocksParallel :: "ParallelCrypto \<Rightarrow> nat \<Rightarrow> (nat \<times> nat) list" where
  "ProcessBlocksParallel pc blockCount =
     (if \<not> ShouldUseParallel pc blockCount then [(0, blockCount)]
      else let workers = GetOptimalWorkerCount pc blockCount;
               groupSize = blockCount div workers
           in map (\<lambda>workerID.
                     let startIdx = workerID * groupSize;
                         endIdx = (workerID + 1) * groupSize;
                         endIdx = (if workerID = workers - 1 then blockCount else endIdx)
                     in (startIdx, endIdx))
                  [0..<workers])"

text \<open>
  Ranges that follow one another from \<open>a\<close> to \<open>b\<close>: each starts where the one
  before ended, none runs backwards, the first starts at \<open>a\<close> and the last ends at
  \<open>b\<close>.
\<close>

fun chained :: "nat \<Rightarrow> (nat \<times> nat) list \<Rightarrow> nat \<Rightarrow> bool" where
  "chained a [] b = (a = b)"
| "chained a ((s, e) # rs) b = (s = a \<and> s \<le> e \<and> chained e rs b)"

text \<open>The indices that a list of calls visits, call after call.\<close>

definition indices_of :: "(nat \<times> nat) list \<Rightarrow> nat list" where
  "indices_of rs = concat (map (\<lambda>(s, e). [s..<e]) rs)"

text \<open>The CPU count after the scaling by CPU features in \<open>GetOptimalWorkerCount\<close>.\<close>

definition scaled_cpus :: "ParallelCrypto \<Rightarrow> nat" where
  "scaled_cpus pc = (if hasAVX2 pc \<and> hasAES pc then (cpuCount pc * 3) div 2
                     else if hasAVX pc then (cpuCount pc * 6) div 5 else cpuCount pc)"

section \<open>Decrypting a group of blocks\<close>

text \<open>
  \<open>ShouldUseBatch\<close> decides, \<open>ProcessBlocksBatch\<close> calls \<open>processFunc\<close> batch after
  batch in the calling goroutine. The batch size is 8 with AVX2 and 4 without.
\<close>

function ProcessBlocksBatch_loop :: "ParallelCrypto \<Rightarrow> nat \<Rightarrow> nat \<Rightarrow> (nat \<times> nat) list" where
  "ProcessBlocksBatch_loop pc i blockCount =
     (let batchSize = (if hasAVX2 pc then 8 else 4) in
      if i < blockCount
      then let endIdx = i + batchSize;
               endIdx = (if endIdx > blockCount then blockCount else endIdx)
           in (i, endIdx) # ProcessBlocksBatch_loop pc (i + batchSize) blockCount
      else [])"
  by pat_completeness auto
termination
  by (relation "measure (\<lambda>(pc, i, blockCount). blockCount - i)") (auto split: if_splits)

definition ProcessBlocksBatch :: "ParallelCrypto \<Rightarrow> nat \<Rightarrow> (nat \<times> nat) list" where
  "ProcessBlocksBatch pc blockCount =
     (if \<not> ShouldUseBatch pc blockCount then [(0, blockCount)]
      else ProcessBlocksBatch_loop pc 0 blockCount)"

text \<open>
  The state that the worker function of \<open>decryptBlocksParallel\<close> and
  \<open>decryptBlocksBatch\<close> shares under its mutex: the slice \<open>plainBlocks\<close> (\<open>None\<close> is
  a \<open>nil\<close> entry) and \<open>decryptErr\<close>. One iteration of its loop decrypts block \<open>i\<close>
  and stores the outcome; a panic inside \<open>DecryptBlock\<close> ends the program.
\<close>

type_synonym decrypt_state = "byte list option list \<times> error option"

definition decrypt_iteration ::
  "ContentEnc \<Rightarrow> byte list list \<Rightarrow> uint64 \<Rightarrow> byte list option \<Rightarrow> nat \<Rightarrow> decrypt_state
     \<Rightarrow> error + decrypt_state" where
  "decrypt_iteration be cipherBlocks firstBlockNo fileID i st =
     (let blockNo = firstBlockNo + of_nat i in
      case DecryptBlock be (cipherBlocks ! i) blockNo fileID of
        Inl e \<Rightarrow>
          if is_panic e then Inl e
          else Inr ((fst st)[i := None], (if snd st = None then Some e else snd st))
      | Inr plainBlock \<Rightarrow> Inr ((fst st)[i := Some plainBlock], snd st))"

fun run_iterations :: "(nat \<Rightarrow> 's \<Rightarrow> error + 's) \<Rightarrow> nat list \<Rightarrow> 's \<Rightarrow> error + 's" where
  "run_iterations step [] st = Inr st"
| "run_iterations step (i # rest) st =
     (case step i st of Inl e \<Rightarrow> Inl e | Inr st' \<Rightarrow> run_iterations step rest st')"

text \<open>
  The goroutines run a call \<open>processFunc(startIdx, endIdx)\<close> each, every one its
  indices in increasing order, and the mutex serialises the iterations. A schedule is
  the order in which the iterations take the mutex: an interleaving of the workers'
  index sequences.
\<close>

fun interleaving :: "nat list \<Rightarrow> nat list list \<Rightarrow> bool" where
  "interleaving [] qs = (\<forall>q \<in> set qs. q = [])"
| "interleaving (x # xs) qs =
     (\<exists>j \<in> set [0..<length qs]. qs ! j \<noteq> [] \<and> hd (qs ! j) = x \<and>
                                    interleaving xs (qs[j := tl (qs ! j)]))"

definition worker_sequences :: "(nat \<times> nat) list \<Rightarrow> nat list list" where
  "worker_sequences calls = map (\<lambda>(startIdx, endIdx). [startIdx..<endIdx]) calls"

text \<open>
  The group functions return \<open>([]byte, error)\<close>: the pair on the right; a panic is on
  the left. \<open>split_blocks\<close> is the first loop of \<open>decryptBlocksParallel\<close> and
  \<open>decryptBlocksBatch\<close>, \<open>assemble\<close> their common end.
\<close>

type_synonym blocks_result = "byte list \<times> error option"

definition split_blocks :: "ContentEnc \<Rightarrow> byte list \<Rightarrow> nat \<Rightarrow> byte list list" where
  "split_blocks be ciphertext blockCount =
     map (\<lambda>i. let start = i * cipherBS be; end' = start + cipherBS be
               in take (end' - start) (drop start ciphertext))
         [0..<blockCount]"

definition assemble :: "error + decrypt_state \<Rightarrow> error + blocks_result" where
  "assemble r =
     (case r of
        Inl e \<Rightarrow> Inl e
      | Inr (plainBlocks, decryptErr) \<Rightarrow>
          (case decryptErr of
             Some e \<Rightarrow> Inr ([], Some e)
           | None \<Rightarrow>
               Inr (concat (map (\<lambda>block. case block of None \<Rightarrow> [] | Some p \<Rightarrow> p) plainBlocks),
                    None)))"

text \<open>\<open>decryptBlocksParallel\<close>; the schedule of the goroutines is the second argument.\<close>

definition decryptBlocksParallel ::
  "ContentEnc \<Rightarrow> nat list \<Rightarrow> byte list \<Rightarrow> uint64 \<Rightarrow> byte list option \<Rightarrow> nat
     \<Rightarrow> error + blocks_result" where
  "decryptBlocksParallel be schedule ciphertext firstBlockNo fileID blockCount =
     (let cipherBlocks = split_blocks be ciphertext blockCount;
          plainBlocks = replicate blockCount None
      in assemble (run_iterations (decrypt_iteration be cipherBlocks firstBlockNo fileID)
                     schedule (plainBlocks, None)))"

definition decryptBlocksBatch ::
  "ContentEnc \<Rightarrow> byte list \<Rightarrow> uint64 \<Rightarrow> byte list option \<Rightarrow> nat \<Rightarrow> error + blocks_result" where
  "decryptBlocksBatch be ciphertext firstBlockNo fileID blockCount =
     (let cipherBlocks = split_blocks be ciphertext blockCount;
          plainBlocks = replicate blockCount None
      in assemble (run_iterations (decrypt_iteration be cipherBlocks firstBlockNo fileID)
                     (indices_of (ProcessBlocksBatch (parallelCrypto be) blockCount))
                     (plainBlocks, None)))"

text \<open>
  The loop of \<open>decryptBlocksSequential\<close>: \<open>cBuf.Next\<close> takes up to \<open>cipherBS\<close>
  bytes, an error ends the loop, and what was written to \<open>pBuf\<close> so far is returned
  with it. With \<open>cipherBS = 0\<close> the buffer would never shrink; that case is \<open>None\<close> in
  \<open>decryptBlocksSequential\<close>.
\<close>

function decryptBlocksSequential_loop ::
  "ContentEnc \<Rightarrow> byte list \<Rightarrow> byte list \<Rightarrow> uint64 \<Rightarrow> byte list option
     \<Rightarrow> error + blocks_result" where
  "decryptBlocksSequential_loop be cBuf pBuf blockNo fileID =
     (if length cBuf > 0 \<and> cipherBS be > 0
      then let cBlock = take (cipherBS be) cBuf in
        case DecryptBlock be cBlock blockNo fileID of
          Inl e \<Rightarrow> if is_panic e then Inl e else Inr (pBuf, Some e)
        | Inr pBlock \<Rightarrow>
            decryptBlocksSequential_loop be (drop (cipherBS be) cBuf) (pBuf @ pBlock)
              (blockNo + 1) fileID
      else Inr (pBuf, None))"
  by pat_completeness auto
termination
  by (relation "measure (\<lambda>(be, cBuf, pBuf, blockNo, fileID). length cBuf)") auto

definition decryptBlocksSequential ::
  "ContentEnc \<Rightarrow> byte list \<Rightarrow> uint64 \<Rightarrow> byte list option \<Rightarrow> (error + blocks_result) option" where
  "decryptBlocksSequential be ciphertext firstBlockNo fileID =
     (if length ciphertext > 0 \<and> cipherBS be = 0 then None
      else Some (decryptBlocksSequential_loop be ciphertext [] firstBlockNo fileID))"

text \<open>
  \<open>DecryptBlocks\<close>. The quotient by \<open>cipherBS\<close> is a run-time panic when it is zero.
\<close>

definition DecryptBlocks ::
  "ContentEnc \<Rightarrow> nat list \<Rightarrow> byte list \<Rightarrow> uint64 \<Rightarrow> byte list option
     \<Rightarrow> (error + blocks_result) option" where
  "DecryptBlocks be schedule ciphertext firstBlockNo fileID =
     (if cipherBS be = 0 then Some (Inl PanicDivideByZero)
      else let blockCount = length ciphertext div cipherBS be in
        if blockCount = 0 then Some (Inr ([], None))
        else if ShouldUseParallel (parallelCrypto be) blockCount
          then Some (decryptBlocksParallel be schedule ciphertext firstBlockNo fileID blockCount)
        else if ShouldUseBatch (parallelCrypto be) blockCount
          then Some (decryptBlocksBatch be ciphertext firstBlockNo fileID blockCount)
        else decryptBlocksSequential be ciphertext firstBlockNo fileID)"

section \<open>Filename authentication\<close>

text \<open>
  A Go string is a sequence of bytes, as a \<open>string\<close> of 8-bit characters is here;
  \<open>[]byte(s)\<close> reads the same bytes as numbers.
\<close>

definition bytes_of_string :: "string \<Rightarrow> byte list" where
  "bytes_of_string s = map (\<lambda>c. of_nat (of_char c)) s"

subsection \<open>The library's \<open>base64.URLEncoding\<close>\<close>

text \<open>
  \<open>encoding/base64\<close> of the Go standard library, for \<open>URLEncoding\<close>: the URL
  alphabet, padding with \<open>=\<close>, decoding not strict. Shifts and masks of the library
  are quotients and remainders by powers of two here.
\<close>

definition encodeURL :: string where
  "encodeURL = ''ABCDEFGHIJKLMNOPQRSTUVWXYZabcdefghijklmnopqrstuvwxyz0123456789-_''"

definition padChar :: char where
  "padChar = CHR ''=''"

fun index_of :: "'a \<Rightarrow> 'a list \<Rightarrow> nat option" where
  "index_of x [] = None"
| "index_of x (y # ys) =
     (if x = y then Some 0 else (case index_of x ys of None \<Rightarrow> None | Some i \<Rightarrow> Some (Suc i)))"

text \<open>\<open>decodeMap\<close>: the position in the alphabet, \<open>None\<close> for the library's \<open>0xff\<close>.\<close>

definition decodeMap :: "char \<Rightarrow> nat option" where
  "decodeMap c = index_of c encodeURL"

text \<open>The library's \<open>val >> shift & 0x3F\<close>.\<close>

definition sextet :: "nat \<Rightarrow> nat \<Rightarrow> nat" where
  "sextet val shift = (val div 2 ^ shift) mod 64"

text \<open>
  \<open>Encode\<close>: three bytes give four characters; one or two remaining bytes give two
  or three characters and padding.
\<close>

fun EncodeToString :: "byte list \<Rightarrow> string" where
  "EncodeToString [] = []"
| "EncodeToString [a] =
     (let val = unat a * 65536
      in [encodeURL ! sextet val 18, encodeURL ! sextet val 12, padChar, padChar])"
| "EncodeToString [a, b] =
     (let val = unat a * 65536 + unat b * 256
      in [encodeURL ! sextet val 18, encodeURL ! sextet val 12, encodeURL ! sextet val 6,
          padChar])"
| "EncodeToString (a # b # c # rest) =
     (let val = unat a * 65536 + unat b * 256 + unat c
      in [encodeURL ! sextet val 18, encodeURL ! sextet val 12, encodeURL ! sextet val 6,
          encodeURL ! sextet val 0]
         @ EncodeToString rest)"

definition is_newline :: "char \<Rightarrow> bool" where
  "is_newline c = (c = CHR 0x0A \<or> c = CHR 0x0D)"

text \<open>
  The bytes of a quantum of \<open>dlen\<close> digits: \<open>dlen - 1\<close> bytes of the 24-bit value.
  The decoder is not strict: the bits of the last digit that belong to no byte are not
  looked at.
\<close>

definition quantum_bytes :: "nat list \<Rightarrow> byte list" where
  "quantum_bytes dbuf =
     (let d = dbuf @ replicate (4 - length dbuf) 0;
          val = (d ! 0) * 262144 + (d ! 1) * 4096 + (d ! 2) * 64 + (d ! 3)
      in take (length dbuf - 1) [of_nat (val div 65536), of_nat (val div 256), of_nat val])"

text \<open>
  \<open>Decode\<close> with its \<open>decodeQuantum\<close>, over the characters not yet read; \<open>dbuf\<close>
  holds the digits of the current quantum. A character of the alphabet is a digit, and
  the fourth digit completes a quantum. CR and LF are skipped. Any other character
  that is not the padding character is corrupt input. Padding is corrupt after fewer
  than two digits; after two digits a second padding character must follow; in both
  cases only CR and LF may follow the padding. Input that ends inside a quantum is
  corrupt.
\<close>

datatype CorruptInputError = CorruptInputError

fun decode_from :: "nat list \<Rightarrow> string \<Rightarrow> CorruptInputError + byte list" where
  "decode_from dbuf [] = (if dbuf = [] then Inr [] else Inl CorruptInputError)"
| "decode_from dbuf (c # src) =
     (case decodeMap c of
        Some out \<Rightarrow>
          if length dbuf = 3
          then (case decode_from [] src of
                  Inl e \<Rightarrow> Inl e
                | Inr bs \<Rightarrow> Inr (quantum_bytes (dbuf @ [out]) @ bs))
          else decode_from (dbuf @ [out]) src
      | None \<Rightarrow>
          if is_newline c then decode_from dbuf src
          else if c \<noteq> padChar then Inl CorruptInputError
          else if length dbuf < 2 then Inl CorruptInputError
          else if length dbuf = 2
          then (let src' = dropWhile is_newline src in
                if src' = [] then Inl CorruptInputError
                else if hd src' \<noteq> padChar then Inl CorruptInputError
                else if dropWhile is_newline (tl src') \<noteq> [] then Inl CorruptInputError
                else Inr (quantum_bytes dbuf))
          else (if dropWhile is_newline src \<noteq> [] then Inl CorruptInputError
                else Inr (quantum_bytes dbuf)))"

definition DecodeString :: "string \<Rightarrow> CorruptInputError + byte list" where
  "DecodeString s = decode_from [] s"

subsection \<open>\<open>filenameauth\<close>\<close>

definition FilenameAuthMACLen :: nat where
  "FilenameAuthMACLen = 32"

definition FilenameAuthSeparator :: string where
  "FilenameAuthSeparator = ''.''"

record FilenameAuth =
  auth_enabled :: bool
  macKey :: "byte list"

text \<open>
  HMAC-SHA256 (\<open>crypto/hmac\<close>, \<open>crypto/sha256\<close>) and \<open>cryptocore.HKDFDerive\<close> are
  arguments: \<open>hmac_sha256 key data\<close> and \<open>HKDFDerive masterKey info outLen\<close>.
\<close>

definition deriveFilenameMACKey ::
  "(byte list \<Rightarrow> byte list \<Rightarrow> nat \<Rightarrow> byte list) \<Rightarrow> byte list \<Rightarrow> byte list" where
  "deriveFilenameMACKey HKDFDerive masterKey =
     (let info = bytes_of_string ''gocryptfs-filename-auth-v1''
      in HKDFDerive masterKey info FilenameAuthMACLen)"

definition New_FilenameAuth ::
  "(byte list \<Rightarrow> byte list \<Rightarrow> nat \<Rightarrow> byte list) \<Rightarrow> byte list \<Rightarrow> bool \<Rightarrow> FilenameAuth" where
  "New_FilenameAuth HKDFDerive masterKey en =
     (let fa = \<lparr>auth_enabled = en, macKey = []\<rparr>
      in if en then fa\<lparr>macKey := deriveFilenameMACKey HKDFDerive masterKey\<rparr> else fa)"

definition calculateMAC ::
  "(byte list \<Rightarrow> byte list \<Rightarrow> byte list) \<Rightarrow> FilenameAuth \<Rightarrow> byte list \<Rightarrow> byte list" where
  "calculateMAC hmac_sha256 fa data = hmac_sha256 (macKey fa) data"

datatype auth_error = InvalidFormat | FailedToDecodeMAC | MACMismatch

definition AuthenticateFilename ::
  "(byte list \<Rightarrow> byte list \<Rightarrow> byte list) \<Rightarrow> FilenameAuth \<Rightarrow> string \<Rightarrow> auth_error + string" where
  "AuthenticateFilename hmac_sha256 fa encryptedName =
     (if \<not> auth_enabled fa then Inr encryptedName
      else let mac = calculateMAC hmac_sha256 fa (bytes_of_string encryptedName);
               macB64 = EncodeToString mac;
               authenticatedName = encryptedName @ FilenameAuthSeparator @ macB64
           in Inr authenticatedName)"

text \<open>
  The loop of \<open>splitAuthenticatedName\<close> looks at the positions \<open>len - 1\<close> down to
  0 and stops at the first separator; \<open>find_lastSep s n\<close> is its outcome when the
  positions below \<open>n\<close> are still to be looked at, \<open>None\<close> for \<open>-1\<close>.
\<close>

fun find_lastSep :: "string \<Rightarrow> nat \<Rightarrow> nat option" where
  "find_lastSep s 0 = None"
| "find_lastSep s (Suc i) =
     (if s ! i = FilenameAuthSeparator ! 0 then Some i else find_lastSep s i)"

definition splitAuthenticatedName :: "string \<Rightarrow> string list" where
  "splitAuthenticatedName authenticatedName =
     (case find_lastSep authenticatedName (length authenticatedName) of
        None \<Rightarrow> [authenticatedName]
      | Some lastSep \<Rightarrow> [take lastSep authenticatedName, drop (lastSep + 1) authenticatedName])"

definition VerifyFilename ::
  "(byte list \<Rightarrow> byte list \<Rightarrow> byte list) \<Rightarrow> FilenameAuth \<Rightarrow> string \<Rightarrow> auth_error + string" where
  "VerifyFilename hmac_sha256 fa authenticatedName =
     (if \<not> auth_enabled fa then Inr authenticatedName
      else let parts = splitAuthenticatedName authenticatedName in
        if length parts \<noteq> 2 then Inl InvalidFormat
        else let encryptedName = parts ! 0; macB64 = parts ! 1 in
          case DecodeString macB64 of
            Inl err \<Rightarrow> Inl FailedToDecodeMAC
          | Inr mac \<Rightarrow>
              let expectedMAC = calculateMAC hmac_sha256 fa (bytes_of_string encryptedName) in
              if mac \<noteq> expectedMAC then Inl MACMismatch
              else Inr encryptedName)"

text \<open>A stand-in for HMAC-SHA256 with 32 bytes of output, for the instances.\<close>

definition toy_hmac :: "byte list \<Rightarrow> byte list \<Rightarrow> byte list" where
  "toy_hmac key data = replicate 32 (xor_all (key @ data))"

definition toy_fa :: FilenameAuth where
  "toy_fa = \<lparr>auth_enabled = True, macKey = [1, 2, 3]\<rparr>"

text \<open>
  A modification of one character of an authenticated name: the last base64 digit
  before the padding character, that is the character at position \<open>len - 2\<close>, is
  replaced by the character that follows it in the alphabet.
\<close>

definition next_digit :: "char \<Rightarrow> char" where
  "next_digit c = (case decodeMap c of Some d \<Rightarrow> encodeURL ! ((d + 1) mod 64) | None \<Rightarrow> c)"

definition tamper_last_digit :: "string \<Rightarrow> string" where
  "tamper_last_digit name =
     take (length name - 2) name @ [next_digit (name ! (length name - 2))]
       @ drop (length name - 1) name"

section \<open>A group of blocks with a short final block\<close>

text \<open>
  An instance with two-byte blocks, and what \<open>EncryptBlock\<close> gives over the small
  cipher for a file of nine bytes, \<open>10 11 20 21 30 31 40 41 50\<close>: four whole blocks
  (numbers 0 to 3, nonces sixteen times 1 to sixteen times 4) and a final block of one
  byte (number 4, nonce sixteen times 5), with a \<open>nil\<close> file-ID.
\<close>

definition small_be :: ContentEnc where
  "small_be = \<lparr>cryptoCore = toy_cc, plainBS = 2, cipherBS = 34,
               allZeroBlock = replicate 34 0, allZeroNonce = replicate 16 0,
               parallelCrypto = New_ParallelCrypto 4\<rparr>"

definition group_block0 :: "byte list" where
  "group_block0 = replicate 16 1 @ [80, 81, 1] @ replicate 15 0"

definition group_block1 :: "byte list" where
  "group_block1 = replicate 16 2 @ [78, 79, 0] @ replicate 15 0"

definition group_block2 :: "byte list" where
  "group_block2 = replicate 16 3 @ [68, 69, 3] @ replicate 15 0"

definition group_block3 :: "byte list" where
  "group_block3 = replicate 16 4 @ [114, 115, 2] @ replicate 15 0"

definition group_final :: "byte list" where
  "group_final = replicate 16 5 @ [104, 108] @ replicate 15 0"

definition example_group :: "byte list" where
  "example_group = group_block0 @ group_block1 @ group_block2 @ group_block3 @ group_final"

definition group_plain :: "nat \<Rightarrow> byte list" where
  "group_plain i = [[10, 11], [20, 21], [30, 31], [40, 41]] ! i"

section \<open>Properties of the block codec\<close>

lemma New_toy: "New 131072 4 toy_cc 4096 = Inr toy_be"
  by (simp add: New_def toy_be_def toy_cc_def AuthTagLen_def)

lemma New_fields:
  assumes "New mkw ncpu cc bs = Inr be"
  shows "cryptoCore be = cc" and "plainBS be = bs"
    and "cipherBS be = bs + IVLen cc + AuthTagLen"
    and "allZeroBlock be = replicate (cipherBS be) 0"
    and "allZeroNonce be = replicate (IVLen cc) 0" and "0 < bs"
  using assms by (auto simp: New_def Let_def split: if_splits)

text \<open>
  C1. For a \<open>ContentEnc\<close> built by \<open>New\<close> with any cipher and any block size that
  \<open>New\<close> accepts, \<open>DecryptBlock\<close> maps the block of \<open>cipherBS\<close> zero bytes to
  \<open>plainBS\<close> zero bytes without error, for every block number and file-ID. The cipher
  \<open>cc\<close> is arbitrary, and the result stays the same when the cipher and key of the
  instance are replaced by any other: \<open>Open\<close> is not consulted.
\<close>

theorem DecryptBlock_hole_passthrough:
  assumes "New mkw ncpu cc bs = Inr be"
  shows "DecryptBlock be (replicate (cipherBS be) 0) blockNo fileID
           = Inr (replicate (plainBS be) 0) \<and>
         length (replicate (plainBS be) (0 :: byte)) = plainBS be \<and>
         DecryptBlock (be\<lparr>cryptoCore := cc\<lparr>AEADCipher_Seal := seal', AEADCipher_Open := open'\<rparr>\<rparr>)
             (replicate (cipherBS be) 0) blockNo fileID
           = Inr (replicate (plainBS be) 0)"
  using New_fields[OF assms] by (simp add: DecryptBlock_def)

theorem DecryptBlock_hole_passthrough_witness:
  "New 131072 4 toy_cc 4096 = Inr toy_be \<and>
   DecryptBlock toy_be (replicate (cipherBS toy_be) 0) 7 None
     = Inr (replicate (plainBS toy_be) 0) \<and>
   DecryptBlock (toy_be\<lparr>cryptoCore := toy_cc\<lparr>AEADCipher_Seal := toy_Seal 1,
                                                 AEADCipher_Open := (\<lambda>nonce ct ad. None)\<rparr>\<rparr>)
       (replicate (cipherBS toy_be) 0) 7 None
     = Inr (replicate (plainBS toy_be) 0)"
  using DecryptBlock_hole_passthrough[OF New_toy, where blockNo = 7 and fileID = None
      and seal' = "toy_Seal 1" and open' = "\<lambda>nonce ct ad. None"]
    New_toy
  by simp

text \<open>
  C10. \<open>EncryptBlock\<close> returns the empty plaintext unchanged, whatever nonce was drawn,
  and \<open>DecryptBlock\<close> returns the empty ciphertext unchanged and without error: the
  empty block round-trips although it is shorter than a nonce.
\<close>

theorem empty_block_roundtrip:
  "EncryptBlock drawn be [] blockNo fileID = Inr [] \<and>
   DecryptBlock be [] blockNo fileID = Inr []"
  by (simp add: EncryptBlock_def doEncryptBlock_def DecryptBlock_def)

lemma concatAD_valid:
  "valid_fileID fileID \<Longrightarrow>
   concatAD blockNo fileID =
     Inr (PutUint64 blockNo @ (case fileID of None \<Rightarrow> [] | Some fid \<Rightarrow> fid))"
  by (cases fileID) (simp_all add: concatAD_def valid_fileID_def)

lemma toy_Seal_length: "length (toy_Seal key nonce p ad) = length p + 16"
  by (simp add: toy_Seal_def toy_tag_def Let_def)

lemma xor_twice: "(b XOR key) XOR key = (b :: byte)"
  by (simp add: xor.assoc)

lemma xor_key_involution:
  "map (\<lambda>b. b XOR key) (map (\<lambda>b. b XOR key) p) = (p :: byte list)"
  by (induction p) (simp_all only: list.map xor_twice)

lemma xor_key_involution_comp:
  "map ((\<lambda>b. b XOR key) \<circ> (\<lambda>b. b XOR key)) p = (p :: byte list)"
  using xor_key_involution[of key p] by (simp only: map_map)

lemma toy_Open_Seal: "toy_Open key nonce (toy_Seal key nonce p ad) ad = Some p"
  by (simp add: toy_Open_def toy_Seal_def Let_def toy_tag_def xor_key_involution_comp)

lemma toy_cc_correct: "AEAD_correct toy_cc"
  by (simp add: AEAD_correct_def toy_cc_def toy_Open_Seal toy_Seal_length AuthTagLen_def)

text \<open>
  C2. With a \<open>ContentEnc\<close> built by \<open>New\<close> over a correct cipher, a drawn nonce of
  \<open>IVLen\<close> bytes that is not all-zero, and a file-ID that is \<open>nil\<close> or 16 bytes long:
  for every plaintext of at most \<open>plainBS\<close> bytes and every block number,
  \<open>EncryptBlock\<close> returns a ciphertext and \<open>DecryptBlock\<close> of that ciphertext, under
  the same block number and file-ID, returns exactly the plaintext and no error.
\<close>

theorem encrypt_decrypt_roundtrip:
  assumes new: "New mkw ncpu cc bs = Inr be"
    and aead: "AEAD_correct cc"
    and nlen: "length drawn = IVLen cc"
    and nz: "drawn \<noteq> replicate (IVLen cc) 0"
    and fid: "valid_fileID fileID"
    and plen: "length plaintext \<le> plainBS be"
  shows "\<exists>ciphertext. EncryptBlock drawn be plaintext blockNo fileID = Inr ciphertext \<and>
           DecryptBlock be ciphertext blockNo fileID = Inr plaintext"
proof (cases "plaintext = []")
  case True
  then show ?thesis
    by (simp add: EncryptBlock_def doEncryptBlock_def DecryptBlock_def)
next
  case False
  note f = New_fields[OF new]
  define aData where
    "aData = PutUint64 blockNo @ (case fileID of None \<Rightarrow> [] | Some fid \<Rightarrow> fid)"
  define sealed where "sealed = AEADCipher_Seal cc drawn plaintext aData"
  have ad: "concatAD blockNo fileID = Inr aData"
    unfolding aData_def by (rule concatAD_valid[OF fid])
  have slen: "length sealed = length plaintext + AuthTagLen"
    and opn: "AEADCipher_Open cc drawn sealed aData = Some plaintext"
    using aead nlen unfolding AEAD_correct_def sealed_def by blast+
  have enc: "EncryptBlock drawn be plaintext blockNo fileID = Inr (drawn @ sealed)"
    using False nlen slen ad f
    by (simp add: EncryptBlock_def doEncryptBlock_def BlockOverhead_def Let_def sealed_def)
  have nohole: "drawn @ sealed \<noteq> allZeroBlock be"
  proof
    assume "drawn @ sealed = allZeroBlock be"
    then have "take (IVLen cc) (drawn @ sealed) = take (IVLen cc) (replicate (cipherBS be) 0)"
      using f by simp
    then have "drawn = replicate (IVLen cc) 0"
      using nlen f by (simp add: min_def)
    with nz show False by contradiction
  qed
  have dec: "DecryptBlock be (drawn @ sealed) blockNo fileID = Inr plaintext"
  proof -
    have "sealed \<noteq> []" using False slen by auto
    then show ?thesis
      using nlen nz nohole ad opn f by (simp add: DecryptBlock_def Let_def)
  qed
  from enc dec show ?thesis by blast
qed

theorem encrypt_decrypt_roundtrip_witness:
  "New 131072 4 toy_cc 4096 = Inr toy_be \<and> AEAD_correct toy_cc \<and>
   length (replicate 16 (7::byte)) = IVLen toy_cc \<and>
   replicate 16 (7::byte) \<noteq> replicate (IVLen toy_cc) 0 \<and>
   valid_fileID (Some (replicate 16 1)) \<and> length [72, 105 :: byte] \<le> plainBS toy_be \<and>
   (\<exists>ciphertext.
      EncryptBlock (replicate 16 7) toy_be [72, 105] 3 (Some (replicate 16 1)) = Inr ciphertext \<and>
      DecryptBlock toy_be ciphertext 3 (Some (replicate 16 1)) = Inr [72, 105])"
proof -
  have a: "length (replicate 16 (7::byte)) = IVLen toy_cc" by (simp add: toy_cc_def)
  have b: "replicate 16 (7::byte) \<noteq> replicate (IVLen toy_cc) 0" by (simp add: toy_cc_def)
  have c: "valid_fileID (Some (replicate 16 1))" by (simp add: valid_fileID_def headerIDLen_def)
  have d: "length [72, 105 :: byte] \<le> plainBS toy_be" by (simp add: toy_be_def)
  show ?thesis
    using encrypt_decrypt_roundtrip[OF New_toy toy_cc_correct a b c d, of 3]
      New_toy toy_cc_correct a b c d
    by blast
qed

text \<open>
  C5, as stated, fails at the empty ciphertext: it is not the all-zero block, it is
  shorter than the nonce, and \<open>DecryptBlock\<close> returns it without error (the
  \<open>Empty block?\<close> guard comes first).
\<close>

theorem DecryptBlock_empty_counterexample:
  "New 131072 4 toy_cc 4096 = Inr toy_be \<and>
   [] \<noteq> replicate (cipherBS toy_be) (0::byte) \<and>
   length ([] :: byte list) < IVLen (cryptoCore toy_be) \<and>
   DecryptBlock toy_be [] 0 None = Inr []"
  using New_toy by (simp add: toy_be_def toy_cc_def DecryptBlock_def)

text \<open>
  C5, amended. For every non-empty ciphertext that is not the full-length all-zero
  block, every block number and file-ID: if the ciphertext is shorter than the nonce,
  \<open>DecryptBlock\<close> returns the error \<open>block is too short\<close>; otherwise, if its first
  \<open>IVLen\<close> bytes are all zero, the error \<open>all-zero nonce\<close>; in both cases no
  plaintext.
\<close>

theorem DecryptBlock_rejects_short_or_zero_nonce:
  assumes new: "New mkw ncpu cc bs = Inr be"
    and ne: "ciphertext \<noteq> []"
    and nohole: "ciphertext \<noteq> replicate (cipherBS be) 0"
    and bad: "length ciphertext < IVLen cc \<or>
              take (IVLen cc) ciphertext = replicate (IVLen cc) 0"
  shows "DecryptBlock be ciphertext blockNo fileID =
           Inl (if length ciphertext < IVLen cc then ErrBlockTooShort else ErrAllZeroNonce)"
  using New_fields[OF new] ne nohole bad by (auto simp: DecryptBlock_def Let_def)

theorem DecryptBlock_rejects_short_or_zero_nonce_witness:
  "New 131072 4 toy_cc 4096 = Inr toy_be \<and> [5, 6] \<noteq> ([] :: byte list) \<and>
   [5, 6] \<noteq> replicate (cipherBS toy_be) (0 :: byte) \<and>
   (length [5, 6 :: byte] < IVLen toy_cc \<or>
    take (IVLen toy_cc) [5, 6 :: byte] = replicate (IVLen toy_cc) 0) \<and>
   DecryptBlock toy_be [5, 6] 9 None = Inl ErrBlockTooShort"
proof -
  have a: "[5, 6] \<noteq> ([] :: byte list)" by simp
  have b: "[5, 6] \<noteq> replicate (cipherBS toy_be) (0 :: byte)"
  proof
    assume "[5, 6] = replicate (cipherBS toy_be) (0 :: byte)"
    then have "length [5, 6 :: byte] = length (replicate (cipherBS toy_be) (0 :: byte))"
      by (rule arg_cong)
    then show False by (simp add: toy_be_def)
  qed
  have c: "length [5, 6 :: byte] < IVLen toy_cc \<or>
           take (IVLen toy_cc) [5, 6 :: byte] = replicate (IVLen toy_cc) 0"
    by (simp add: toy_cc_def)
  show ?thesis
    using DecryptBlock_rejects_short_or_zero_nonce[OF New_toy a b c, of 9 None] New_toy a b c
    by (simp add: toy_cc_def)
qed

section \<open>Associated data\<close>

lemma length_PutUint64: "length (PutUint64 v) = 8"
  by (simp add: PutUint64_def)

lemma unat_byte_of_shift:
  "unat (ucast (drop_bit k (v :: uint64)) :: byte) = (unat v div 2 ^ k) mod 256"
proof -
  have "unat (ucast (drop_bit k v) :: byte) = take_bit 8 (unat (drop_bit k v))"
    by (simp add: unsigned_ucast_eq)
  also have "\<dots> = take_bit 8 (drop_bit k (unat v))"
    by (simp only: unat_drop_bit_eq)
  also have "\<dots> = (unat v div 2 ^ k) mod 256"
    by (simp add: take_bit_eq_mod drop_bit_eq_div)
  finally show ?thesis .
qed

lemma upt8: "[0..<8] = [0,1,2,3,4,5,6,7::nat]"
  by (simp add: upt_rec)

lemma PutUint64_bytes:
  "PutUint64 v = [ucast (drop_bit 56 v), ucast (drop_bit 48 v), ucast (drop_bit 40 v),
                  ucast (drop_bit 32 v), ucast (drop_bit 24 v), ucast (drop_bit 16 v),
                  ucast (drop_bit 8 v), ucast (drop_bit 0 v)]"
  by (simp add: PutUint64_def upt8)

lemma PutUint64_big_endian:
  "foldl (\<lambda>acc b. acc * 256 + unat b) 0 (PutUint64 v) = unat v"
proof -
  define n where "n = unat v"
  define d where "d = (\<lambda>k. n div 2 ^ k)"
  define r where "r = (\<lambda>k. d k mod 256)"
  have lt: "n < 2 ^ 64" unfolding n_def using unsigned_less[of v, where ?'a = nat] by simp
  have step: "d k = d (k + 8) * 256 + r k" for k
  proof -
    have "d (k + 8) = d k div 256"
      by (simp add: d_def power_add div_mult2_eq)
    then show ?thesis by (simp add: r_def)
  qed
  have top: "d 64 = 0" using lt by (simp add: d_def)
  have d0: "d 0 = n" by (simp add: d_def)
  have bytes: "unat (ucast (drop_bit k v) :: byte) = r k" for k
    by (simp only: unat_byte_of_shift r_def d_def n_def)
  have "foldl (\<lambda>acc b. acc * 256 + unat b) 0 (PutUint64 v) =
        (((((((0 * 256 + r 56) * 256 + r 48) * 256 + r 40) * 256 + r 32) * 256 + r 24) * 256
          + r 16) * 256 + r 8) * 256 + r 0"
    by (simp only: PutUint64_bytes foldl.simps bytes)
  also have "\<dots> = d 0"
    using step[of 0] step[of 8] step[of 16] step[of 24] step[of 32] step[of 40] step[of 48]
      step[of 56] top
    by simp
  finally show ?thesis by (simp add: d0 n_def)
qed

text \<open>
  C4. For every block number and every 16-byte file-ID, \<open>concatAD\<close> returns 24 bytes:
  the first eight are \<open>PutUint64\<close> of the block number, whose big-endian value is the
  block number, the last sixteen are the file-ID. A non-empty ciphertext returned by
  \<open>doEncryptBlock\<close> is the nonce followed by \<open>Seal\<close> under exactly these 24 bytes, and
  whenever \<open>DecryptBlock\<close> reaches the cipher it calls \<open>Open\<close> under exactly these
  24 bytes.
\<close>

theorem concatAD_layout:
  assumes fid: "length fid = 16"
  shows "concatAD blockNo (Some fid) = Inr (PutUint64 blockNo @ fid) \<and>
         length (PutUint64 blockNo @ fid) = 24 \<and>
         take 8 (PutUint64 blockNo @ fid) = PutUint64 blockNo \<and>
         drop 8 (PutUint64 blockNo @ fid) = fid \<and>
         foldl (\<lambda>acc b. acc * 256 + unat b) 0 (PutUint64 blockNo) = unat blockNo \<and>
         (plaintext \<noteq> [] \<longrightarrow>
          doEncryptBlock be plaintext blockNo (Some fid) nonce = Inr sealed \<longrightarrow>
            sealed = nonce @ AEADCipher_Seal (cryptoCore be) nonce plaintext
                               (PutUint64 blockNo @ fid)) \<and>
         (ciphertext \<noteq> [] \<longrightarrow> ciphertext \<noteq> allZeroBlock be' \<longrightarrow>
          IVLen (cryptoCore be') \<le> length ciphertext \<longrightarrow>
          take (IVLen (cryptoCore be')) ciphertext \<noteq> allZeroNonce be' \<longrightarrow>
            DecryptBlock be' ciphertext blockNo (Some fid) =
              (case AEADCipher_Open (cryptoCore be') (take (IVLen (cryptoCore be')) ciphertext)
                      (drop (IVLen (cryptoCore be')) ciphertext) (PutUint64 blockNo @ fid) of
                 None \<Rightarrow> Inl ErrAEADOpen
               | Some opened \<Rightarrow> Inr opened))"
proof -
  have ad: "concatAD blockNo (Some fid) = Inr (PutUint64 blockNo @ fid)"
    using fid by (simp add: concatAD_def headerIDLen_def)
  have enc: "plaintext \<noteq> [] \<longrightarrow>
          doEncryptBlock be plaintext blockNo (Some fid) nonce = Inr sealed \<longrightarrow>
            sealed = nonce @ AEADCipher_Seal (cryptoCore be) nonce plaintext
                               (PutUint64 blockNo @ fid)"
    by (auto simp: doEncryptBlock_def ad Let_def split: if_splits)
  have dec: "ciphertext \<noteq> [] \<longrightarrow> ciphertext \<noteq> allZeroBlock be' \<longrightarrow>
          IVLen (cryptoCore be') \<le> length ciphertext \<longrightarrow>
          take (IVLen (cryptoCore be')) ciphertext \<noteq> allZeroNonce be' \<longrightarrow>
            DecryptBlock be' ciphertext blockNo (Some fid) =
              (case AEADCipher_Open (cryptoCore be') (take (IVLen (cryptoCore be')) ciphertext)
                      (drop (IVLen (cryptoCore be')) ciphertext) (PutUint64 blockNo @ fid) of
                 None \<Rightarrow> Inl ErrAEADOpen
               | Some opened \<Rightarrow> Inr opened)"
    by (simp add: DecryptBlock_def ad Let_def)
  show ?thesis
    using ad enc dec fid by (simp add: length_PutUint64 PutUint64_big_endian)
qed

lemma PutUint64_3: "PutUint64 3 = [0,0,0,0,0,0,0,3]"
  by (simp add: PutUint64_def upt8)

lemma replicate16: "replicate 16 x = [x,x,x,x,x,x,x,x,x,x,x,x,x,x,x,x]"
  by (simp add: numeral_eq_Suc)

lemma replicate15: "replicate 15 x = [x,x,x,x,x,x,x,x,x,x,x,x,x,x,x]"
  by (simp add: numeral_eq_Suc)

lemma toy_encrypt_example:
  "doEncryptBlock toy_be [72, 105] 3 (Some (replicate 16 1)) (replicate 16 7) = Inr example_sealed"
  by (simp add: doEncryptBlock_def toy_be_def toy_cc_def concatAD_def headerIDLen_def
      BlockOverhead_def toy_Seal_def toy_tag_def xor_all_def PutUint64_3 Let_def
      example_sealed_def replicate16)

theorem concatAD_layout_witness:
  "length (replicate 16 (1::byte)) = 16 \<and>
   concatAD 3 (Some (replicate 16 1)) = Inr ([0,0,0,0,0,0,0,3] @ replicate 16 1) \<and>
   [72, 105] \<noteq> ([] :: byte list) \<and>
   doEncryptBlock toy_be [72, 105] 3 (Some (replicate 16 1)) (replicate 16 7) = Inr example_sealed \<and>
   example_sealed = replicate 16 7 @
      AEADCipher_Seal (cryptoCore toy_be) (replicate 16 7) [72, 105] ([0,0,0,0,0,0,0,3] @ replicate 16 1) \<and>
   example_sealed \<noteq> [] \<and> example_sealed \<noteq> allZeroBlock toy_be \<and>
   IVLen (cryptoCore toy_be) \<le> length example_sealed \<and>
   take (IVLen (cryptoCore toy_be)) example_sealed \<noteq> allZeroNonce toy_be \<and>
   DecryptBlock toy_be example_sealed 3 (Some (replicate 16 1)) =
     (case AEADCipher_Open (cryptoCore toy_be) (take (IVLen (cryptoCore toy_be)) example_sealed)
             (drop (IVLen (cryptoCore toy_be)) example_sealed) ([0,0,0,0,0,0,0,3] @ replicate 16 1) of
        None \<Rightarrow> Inl ErrAEADOpen | Some opened \<Rightarrow> Inr opened)"
proof -
  have a: "length (replicate 16 (1::byte)) = 16" by simp
  have b: "[72, 105] \<noteq> ([] :: byte list)" by simp
  have c: "example_sealed \<noteq> []" by (simp add: example_sealed_def)
  have d: "example_sealed \<noteq> allZeroBlock toy_be"
  proof
    assume "example_sealed = allZeroBlock toy_be"
    then have "length example_sealed = length (allZeroBlock toy_be)" by (rule arg_cong)
    then show False by (simp add: example_sealed_def toy_be_def)
  qed
  have e: "IVLen (cryptoCore toy_be) \<le> length example_sealed"
    by (simp add: example_sealed_def toy_be_def toy_cc_def)
  have f: "take (IVLen (cryptoCore toy_be)) example_sealed \<noteq> allZeroNonce toy_be"
    by (simp add: example_sealed_def toy_be_def toy_cc_def)
  show ?thesis
    using concatAD_layout[OF a, of 3 "[72, 105]" toy_be "replicate 16 7" example_sealed
        example_sealed toy_be]
      a b c d e f toy_encrypt_example
    by (simp add: PutUint64_3)
qed

section \<open>Tampering with one bit\<close>

lemma fold_xor_acc: "fold (XOR) xs (a :: byte) = a XOR fold (XOR) xs 0"
proof (induction xs arbitrary: a)
  case Nil
  then show ?case by simp
next
  case (Cons x xs)
  have "fold (XOR) (x # xs) a = fold (XOR) xs (x XOR a)" by simp
  also have "\<dots> = (x XOR a) XOR fold (XOR) xs 0" by (rule Cons.IH)
  also have "\<dots> = a XOR (x XOR fold (XOR) xs 0)" by (simp add: ac_simps)
  also have "x XOR fold (XOR) xs 0 = fold (XOR) xs (x XOR 0)"
    using Cons.IH[of "x XOR 0"] by simp
  finally show ?case by simp
qed

lemma xor_all_Nil: "xor_all [] = 0"
  by (simp add: xor_all_def)

lemma xor_all_Cons: "xor_all (x # xs) = x XOR xor_all xs"
  using fold_xor_acc[of xs x] by (simp add: xor_all_def)

lemma xor_all_append: "xor_all (xs @ ys) = xor_all xs XOR xor_all ys"
  by (induction xs) (simp_all add: xor_all_Nil xor_all_Cons ac_simps)

lemma xor_all_zeros: "xor_all (replicate n 0) = 0"
  by (induction n) (simp_all add: xor_all_Nil xor_all_Cons)

lemma xor_all_update:
  "i < length xs \<Longrightarrow> xor_all (xs[i := xs ! i XOR d]) = xor_all xs XOR d"
proof (induction xs arbitrary: i)
  case Nil
  then show ?case by simp
next
  case (Cons x xs)
  show ?case
  proof (cases i)
    case 0
    then show ?thesis by (simp add: xor_all_Cons ac_simps)
  next
    case (Suc j)
    with Cons.prems have "j < length xs" by simp
    from Cons.IH[OF this] Suc show ?thesis by (simp add: xor_all_Cons ac_simps)
  qed
qed

lemma xor_all_flip:
  "i < length xs \<Longrightarrow> xor_all (flip_bit_at i k xs) = xor_all xs XOR push_bit k 1"
  by (simp add: flip_bit_at_def xor_all_update)

lemma length_flip [simp]: "length (flip_bit_at i k xs) = length xs"
  by (simp add: flip_bit_at_def)

lemma push_bit_byte_nonzero:
  assumes "k < 8"
  shows "push_bit k (1 :: byte) \<noteq> 0"
proof
  assume "push_bit k (1 :: byte) = 0"
  moreover have "bit (push_bit k (1 :: byte)) k"
    using assms by (simp add: bit_simps)
  ultimately show False using assms by simp
qed

lemma xor_cancel_left: "(a :: byte) XOR (a XOR b) = b"
  by (simp add: xor.assoc[symmetric])

lemma xor_changes: "d \<noteq> 0 \<Longrightarrow> (a :: byte) XOR d \<noteq> a"
proof
  assume "d \<noteq> 0" and "a XOR d = a"
  then have "a XOR (a XOR d) = a XOR a" by simp
  then have "d = 0" by (simp add: xor_cancel_left)
  with \<open>d \<noteq> 0\<close> show False by contradiction
qed

lemma toy_sealed_parity:
  "xor_all (nonce @ toy_Seal key nonce p ad) = xor_all ad"
  by (simp add: toy_Seal_def toy_tag_def Let_def xor_all_append xor_all_Cons xor_all_zeros ac_simps)

lemma toy_opened_parity:
  assumes "toy_Open key nonce rest ad = Some p"
  shows "xor_all (nonce @ rest) = xor_all ad"
proof -
  define body where "body = take (length rest - 16) rest"
  define tag where "tag = drop (length rest - 16) rest"
  from assms have tag: "tag = toy_tag nonce body ad"
    by (auto simp: toy_Open_def Let_def body_def tag_def split: if_splits)
  have "rest = body @ tag" by (simp add: body_def tag_def)
  then have "xor_all (nonce @ rest) = xor_all nonce XOR xor_all body XOR xor_all tag"
    by (simp add: xor_all_append ac_simps)
  also have "xor_all tag = xor_all nonce XOR xor_all body XOR xor_all ad"
    by (simp add: tag toy_tag_def xor_all_Cons xor_all_zeros xor_all_append ac_simps)
  finally show ?thesis by (simp add: ac_simps xor_cancel_left)
qed

lemma toy_cc_detects: "AEAD_detects_bit_flips toy_cc"
  unfolding AEAD_detects_bit_flips_def
proof (intro allI impI)
  fix nonce plaintext ad :: "byte list" and i k :: nat
  let ?c = "nonce @ AEADCipher_Seal toy_cc nonce plaintext ad"
  let ?c' = "flip_bit_at i k ?c"
  assume "length nonce = IVLen toy_cc" and i: "i < length ?c" and k: "k < 8"
  show "AEADCipher_Open toy_cc (take (IVLen toy_cc) ?c') (drop (IVLen toy_cc) ?c') ad = None"
  proof (rule ccontr)
    assume "AEADCipher_Open toy_cc (take (IVLen toy_cc) ?c') (drop (IVLen toy_cc) ?c') ad \<noteq> None"
    then obtain p where "toy_Open 90 (take 16 ?c') (drop 16 ?c') ad = Some p"
      by (auto simp: toy_cc_def)
    from toy_opened_parity[OF this] have "xor_all ?c' = xor_all ad" by simp
    moreover have "xor_all ?c' = xor_all ?c XOR push_bit k 1"
      using i by (rule xor_all_flip)
    moreover have "xor_all ?c = xor_all ad"
      by (simp add: toy_cc_def toy_sealed_parity)
    ultimately have "xor_all ad XOR push_bit k 1 = xor_all ad" by simp
    with xor_changes[OF push_bit_byte_nonzero[OF k]] show False by blast
  qed
qed

text \<open>
  C3, amended. Let the \<open>ContentEnc\<close> be built by \<open>New\<close> over a cipher that rejects
  every single-bit modification, let \<open>sealed\<close> be a block returned by
  \<open>EncryptBlock\<close>, and let one bit of it be inverted without producing the full-length
  all-zero block. Then \<open>DecryptBlock\<close>, under the same block number and file-ID,
  returns an error and no plaintext: the error \<open>all-zero nonce\<close> when the modification
  leaves an all-zero nonce, the cipher's authentication error otherwise.
\<close>

theorem bit_flip_detected:
  assumes new: "New mkw ncpu cc bs = Inr be"
    and detects: "AEAD_detects_bit_flips cc"
    and nlen: "length drawn = IVLen cc"
    and enc: "EncryptBlock drawn be plaintext blockNo fileID = Inr sealed"
    and i: "i < length sealed" and k: "k < 8"
    and nohole: "flip_bit_at i k sealed \<noteq> replicate (cipherBS be) 0"
  shows "DecryptBlock be (flip_bit_at i k sealed) blockNo fileID =
           Inl (if take (IVLen cc) (flip_bit_at i k sealed) = replicate (IVLen cc) 0
                then ErrAllZeroNonce else ErrAEADOpen)"
proof -
  note f = New_fields[OF new]
  have ne: "plaintext \<noteq> []"
  proof
    assume "plaintext = []"
    with enc have "sealed = []" by (simp add: EncryptBlock_def doEncryptBlock_def)
    with i show False by simp
  qed
  from enc ne obtain aData where ad: "concatAD blockNo fileID = Inr aData"
    and sealed: "sealed = drawn @ AEADCipher_Seal cc drawn plaintext aData"
    using f(1)
    by (auto simp: EncryptBlock_def doEncryptBlock_def Let_def split: if_splits sum.splits)
  let ?c' = "flip_bit_at i k sealed"
  have opn: "AEADCipher_Open cc (take (IVLen cc) ?c') (drop (IVLen cc) ?c') aData = None"
    using detects nlen i k unfolding AEAD_detects_bit_flips_def sealed by blast
  have len: "IVLen cc \<le> length ?c'" using nlen by (simp add: sealed)
  have ne': "sealed \<noteq> []" using i by auto
  show ?thesis
    using ne' nohole len opn ad f by (simp add: DecryptBlock_def Let_def)
qed

lemma toy_encrypt_example_one:
  "EncryptBlock (1 # replicate 15 0) toy_be [72, 105] 3 (Some (replicate 16 1)) = Inr example_sealed_one"
  by (simp add: EncryptBlock_def doEncryptBlock_def toy_be_def toy_cc_def concatAD_def headerIDLen_def
      BlockOverhead_def toy_Seal_def toy_tag_def xor_all_def PutUint64_3 Let_def
      example_sealed_one_def replicate16 replicate15)

lemma toy_EncryptBlock_example:
  "EncryptBlock (replicate 16 7) toy_be [72, 105] 3 (Some (replicate 16 1)) = Inr example_sealed"
  using toy_encrypt_example by (simp add: EncryptBlock_def)

lemma not_hole_by_length: "length xs \<noteq> n \<Longrightarrow> xs \<noteq> replicate n x"
  by auto

text \<open>
  C3, as stated, fails when the only set bit of the nonce is inverted: the block under
  the nonce \<open>01 00 \<dots> 00\<close> becomes a block with an all-zero nonce, which is not the
  all-zero block, and \<open>DecryptBlock\<close> returns \<open>all-zero nonce\<close> before the cipher is
  consulted, not an authentication error. The cipher of the instance rejects every
  single-bit modification.
\<close>

theorem bit_flip_zero_nonce_counterexample:
  "AEAD_detects_bit_flips toy_cc \<and>
   EncryptBlock (1 # replicate 15 0) toy_be [72, 105] 3 (Some (replicate 16 1)) = Inr example_sealed_one \<and>
   flip_bit_at 0 0 example_sealed_one \<noteq> replicate (cipherBS toy_be) 0 \<and>
   DecryptBlock toy_be (flip_bit_at 0 0 example_sealed_one) 3 (Some (replicate 16 1)) = Inl ErrAllZeroNonce \<and>
   DecryptBlock toy_be (flip_bit_at 0 0 example_sealed_one) 3 (Some (replicate 16 1)) \<noteq> Inl ErrAEADOpen"
proof -
  have a: "flip_bit_at 0 0 example_sealed_one \<noteq> replicate (cipherBS toy_be) 0"
    by (rule not_hole_by_length) (simp add: example_sealed_one_def toy_be_def)
  have b: "flip_bit_at 0 0 example_sealed_one = replicate 16 0 @ [18, 51, 35] @ replicate 15 0"
    by (simp add: flip_bit_at_def example_sealed_one_def replicate16 replicate15)
  have c: "DecryptBlock toy_be (flip_bit_at 0 0 example_sealed_one) 3 (Some (replicate 16 1)) = Inl ErrAllZeroNonce"
    using a unfolding b by (simp add: DecryptBlock_def toy_be_def toy_cc_def)
  show ?thesis using toy_cc_detects toy_encrypt_example_one a c by simp
qed

theorem bit_flip_detected_witness:
  "New 131072 4 toy_cc 4096 = Inr toy_be \<and> AEAD_detects_bit_flips toy_cc \<and>
   length (replicate 16 (7::byte)) = IVLen toy_cc \<and>
   EncryptBlock (replicate 16 7) toy_be [72, 105] 3 (Some (replicate 16 1)) = Inr example_sealed \<and>
   17 < length example_sealed \<and> (0::nat) < 8 \<and>
   flip_bit_at 17 0 example_sealed \<noteq> replicate (cipherBS toy_be) 0 \<and>
   DecryptBlock toy_be (flip_bit_at 17 0 example_sealed) 3 (Some (replicate 16 1)) = Inl ErrAEADOpen"
proof -
  have a: "length (replicate 16 (7::byte)) = IVLen toy_cc" by (simp add: toy_cc_def)
  have b: "17 < length example_sealed" by (simp add: example_sealed_def)
  have c: "(0::nat) < 8" by simp
  have d: "flip_bit_at 17 0 example_sealed \<noteq> replicate (cipherBS toy_be) 0"
    by (rule not_hole_by_length) (simp add: example_sealed_def toy_be_def)
  have e: "take (IVLen toy_cc) (flip_bit_at 17 0 example_sealed) \<noteq> replicate (IVLen toy_cc) 0"
    by (simp add: flip_bit_at_def example_sealed_def toy_cc_def replicate16)
  show ?thesis
    using bit_flip_detected[OF New_toy toy_cc_detects a toy_EncryptBlock_example b c d]
      New_toy toy_cc_detects a toy_EncryptBlock_example b c d e
    by simp
qed

section \<open>Floors of the key derivation parameters\<close>

lemma ScryptKDF_validateParams_iff:
  "ScryptKDF_validateParams s \<noteq> None \<longleftrightarrow>
     sint (Scrypt_N s) < 2 ^ 10 \<or> sint (Scrypt_R s) < 8 \<or> sint (Scrypt_P s) < 1 \<or>
     length (Scrypt_Salt s) < 32 \<or> sint (Scrypt_KeyLen s) < 32"
  by (simp add: ScryptKDF_validateParams_def Let_def scryptMinLogN_def scryptMinR_def
      scryptMinP_def scryptMinSaltLen_def cryptocore_KeyLen_def)

lemma Argon2idKDF_validateParams_iff:
  "Argon2idKDF_validateParams a \<noteq> None \<longleftrightarrow>
     unat (Argon2id_Memory a) < 16 * 1024 \<or> unat (Argon2id_Iterations a) < 1 \<or>
     unat (Argon2id_Parallelism a) < 1 \<or> length (Argon2id_Salt a) < 16 \<or>
     unat (Argon2id_KeyLen a) < 32"
  by (simp add: Argon2idKDF_validateParams_def Argon2idMinMemory_def Argon2idMinIterations_def
      Argon2idMinParallelism_def Argon2idMinSaltLen_def cryptocore_KeyLen_def)

text \<open>
  C6. \<open>validateParams\<close> of \<open>ScryptKDF\<close> returns an error exactly when \<open>N < 2^10\<close>,
  \<open>R < 8\<close>, \<open>P < 1\<close>, the salt is shorter than 32 bytes or \<open>KeyLen < 32\<close>; that of
  \<open>Argon2idKDF\<close> exactly when the memory is below 16 * 1024 KiB, the iterations or the
  parallelism are below 1, the salt is shorter than 16 bytes or \<open>KeyLen < 32\<close>. When the
  validation fails, \<open>DeriveKey\<close> leaves through \<open>os.Exit(exitcodes.ScryptParams)\<close>,
  and whenever \<open>DeriveKey\<close> returns a key the parameters had passed the validation,
  whatever the derivation functions are.
\<close>

theorem kdf_floors_enforced:
  "(ScryptKDF_validateParams s \<noteq> None \<longleftrightarrow>
      sint (Scrypt_N s) < 2 ^ 10 \<or> sint (Scrypt_R s) < 8 \<or> sint (Scrypt_P s) < 1 \<or>
      length (Scrypt_Salt s) < 32 \<or> sint (Scrypt_KeyLen s) < 32) \<and>
   (Argon2idKDF_validateParams a \<noteq> None \<longleftrightarrow>
      unat (Argon2id_Memory a) < 16 * 1024 \<or> unat (Argon2id_Iterations a) < 1 \<or>
      unat (Argon2id_Parallelism a) < 1 \<or> length (Argon2id_Salt a) < 16 \<or>
      unat (Argon2id_KeyLen a) < 32) \<and>
   (ScryptKDF_validateParams s \<noteq> None \<longrightarrow>
      (\<exists>err. ScryptKDF_DeriveKey scrypt_Key s pw = Inl (Exit_ScryptParams err))) \<and>
   (Argon2idKDF_validateParams a \<noteq> None \<longrightarrow>
      (\<exists>err. Argon2idKDF_DeriveKey argon2_IDKey a pw = Inl (Exit_ScryptParams err))) \<and>
   (ScryptKDF_DeriveKey scrypt_Key s pw = Inr key \<longrightarrow> ScryptKDF_validateParams s = None) \<and>
   (Argon2idKDF_DeriveKey argon2_IDKey a pw = Inr key' \<longrightarrow>
      Argon2idKDF_validateParams a = None)"
proof -
  have 1: "ScryptKDF_validateParams s \<noteq> None \<longrightarrow>
      (\<exists>err. ScryptKDF_DeriveKey scrypt_Key s pw = Inl (Exit_ScryptParams err))"
    by (auto simp: ScryptKDF_DeriveKey_def)
  have 2: "Argon2idKDF_validateParams a \<noteq> None \<longrightarrow>
      (\<exists>err. Argon2idKDF_DeriveKey argon2_IDKey a pw = Inl (Exit_ScryptParams err))"
    by (auto simp: Argon2idKDF_DeriveKey_def)
  have 3: "ScryptKDF_DeriveKey scrypt_Key s pw = Inr key \<longrightarrow> ScryptKDF_validateParams s = None"
    by (auto simp: ScryptKDF_DeriveKey_def split: option.splits)
  have 4: "Argon2idKDF_DeriveKey argon2_IDKey a pw = Inr key' \<longrightarrow>
      Argon2idKDF_validateParams a = None"
    by (auto simp: Argon2idKDF_DeriveKey_def split: option.splits)
  from ScryptKDF_validateParams_iff[of s] Argon2idKDF_validateParams_iff[of a] 1 2 3 4
  show ?thesis by blast
qed

lemma weak_scrypt_rejected: "ScryptKDF_validateParams weak_scrypt = Some ScryptnTooLow"
  by (simp add: ScryptKDF_validateParams_def weak_scrypt_def Let_def scryptMinLogN_def)

lemma weak_argon2id_rejected:
  "Argon2idKDF_validateParams weak_argon2id = Some Argon2idMemoryBelowMinimum"
  by (simp add: Argon2idKDF_validateParams_def weak_argon2id_def Argon2idMinMemory_def)

lemma floor_scrypt_accepted: "ScryptKDF_validateParams floor_scrypt = None"
  by (simp add: ScryptKDF_validateParams_def floor_scrypt_def Let_def scryptMinLogN_def
      scryptMinR_def scryptMinP_def scryptMinSaltLen_def cryptocore_KeyLen_def)

lemma floor_argon2id_accepted: "Argon2idKDF_validateParams floor_argon2id = None"
  by (simp add: Argon2idKDF_validateParams_def floor_argon2id_def Argon2idMinMemory_def
      Argon2idMinIterations_def Argon2idMinParallelism_def Argon2idMinSaltLen_def
      cryptocore_KeyLen_def)

theorem kdf_floors_enforced_witness:
  "ScryptKDF_validateParams weak_scrypt \<noteq> None \<and> sint (Scrypt_N weak_scrypt) < 2 ^ 10 \<and>
   ScryptKDF_DeriveKey toy_scrypt_Key weak_scrypt [112, 119] = Inl (Exit_ScryptParams ScryptnTooLow) \<and>
   Argon2idKDF_validateParams weak_argon2id \<noteq> None \<and>
   unat (Argon2id_Memory weak_argon2id) < 16 * 1024 \<and>
   Argon2idKDF_DeriveKey toy_IDKey weak_argon2id [112, 119] =
     Inl (Exit_ScryptParams Argon2idMemoryBelowMinimum) \<and>
   ScryptKDF_DeriveKey toy_scrypt_Key floor_scrypt [112, 119] = Inr (replicate 32 7) \<and>
   ScryptKDF_validateParams floor_scrypt = None \<and>
   Argon2idKDF_DeriveKey toy_IDKey floor_argon2id [112, 119] = Inr (replicate 32 7) \<and>
   Argon2idKDF_validateParams floor_argon2id = None"
proof -
  have a: "ScryptKDF_DeriveKey toy_scrypt_Key floor_scrypt [112, 119] = Inr (replicate 32 7)"
    by (simp add: ScryptKDF_DeriveKey_def floor_scrypt_accepted)
       (simp add: floor_scrypt_def toy_scrypt_Key_def xor_all_append xor_all_zeros xor_all_Cons xor_all_Nil)
  have b: "Argon2idKDF_DeriveKey toy_IDKey floor_argon2id [112, 119] = Inr (replicate 32 7)"
    by (simp add: Argon2idKDF_DeriveKey_def floor_argon2id_accepted)
       (simp add: floor_argon2id_def toy_IDKey_def xor_all_append xor_all_zeros xor_all_Cons xor_all_Nil)
  have c: "sint (Scrypt_N weak_scrypt) < 2 ^ 10" by (simp add: weak_scrypt_def)
  have d: "unat (Argon2id_Memory weak_argon2id) < 16 * 1024" by (simp add: weak_argon2id_def)
  have e: "ScryptKDF_DeriveKey toy_scrypt_Key weak_scrypt [112, 119] = Inl (Exit_ScryptParams ScryptnTooLow)"
    by (simp add: ScryptKDF_DeriveKey_def weak_scrypt_rejected)
  have f: "Argon2idKDF_DeriveKey toy_IDKey weak_argon2id [112, 119] =
     Inl (Exit_ScryptParams Argon2idMemoryBelowMinimum)"
    by (simp add: Argon2idKDF_DeriveKey_def weak_argon2id_rejected)
  from kdf_floors_enforced[of weak_scrypt weak_argon2id toy_scrypt_Key "[112, 119]" toy_IDKey]
    kdf_floors_enforced[of floor_scrypt floor_argon2id toy_scrypt_Key "[112, 119]" toy_IDKey
      "replicate 32 7" "replicate 32 7"] a b c d e f
  show ?thesis by simp
qed

section \<open>Number of workers\<close>

text \<open>
  C7, as stated, fails on the CPU-aware driver: with two CPUs and four blocks (the
  threshold) it starts three workers, one more than the CPU count, because \<open>New\<close>
  always flags AVX2 and AES and the CPU count is scaled by 1.5 before the two limits
  apply.
\<close>

theorem worker_count_counterexample:
  "enabled (New_ParallelCrypto 2) \<and> 2 \<le> cpuCount (New_ParallelCrypto 2) \<and>
   ParallelThreshold \<le> 4 \<and> MaxParallelWorkers \<le> 16 \<and>
   GetOptimalWorkerCount (New_ParallelCrypto 2) 4 = 3 \<and>
   min MaxParallelWorkers (min (cpuCount (New_ParallelCrypto 2)) 4) = 2"
  by (simp add: New_ParallelCrypto_def detectCPUFeatures_def GetOptimalWorkerCount_def
      ParallelThreshold_def MaxParallelWorkers_def MinParallelWorkers_def Let_def)

lemma GetOptimalWorkerCount_min:
  assumes "enabled pc" and "2 \<le> cpuCount pc" and "ParallelThreshold \<le> blockCount"
  shows "GetOptimalWorkerCount pc blockCount
           = min MaxParallelWorkers (min (scaled_cpus pc) blockCount)"
proof -
  have "GetOptimalWorkerCount pc blockCount =
        (let w = scaled_cpus pc;
             w = (if w > MaxParallelWorkers then MaxParallelWorkers else w)
         in if w > blockCount then blockCount else w)"
    using assms
    by (simp add: GetOptimalWorkerCount_def scaled_cpus_def Let_def MinParallelWorkers_def)
  also have "\<dots> = min MaxParallelWorkers (min (scaled_cpus pc) blockCount)"
    by (simp add: Let_def min_def)
  finally show ?thesis .
qed

lemma scaled_cpus_New: "scaled_cpus (New_ParallelCrypto n) = (n * 3) div 2"
  by (simp add: scaled_cpus_def New_ParallelCrypto_def detectCPUFeatures_def)

lemma New_ParallelCrypto_fields:
  "enabled (New_ParallelCrypto n)" "cpuCount (New_ParallelCrypto n) = n"
  by (simp_all add: New_ParallelCrypto_def detectCPUFeatures_def)

lemma Plain_GetOptimalWorkerCount_min:
  assumes "plain_enabled ppc" and "2 \<le> numCPU" and "Plain_ParallelThreshold \<le> blockCount"
  shows "Plain_GetOptimalWorkerCount numCPU ppc blockCount
           = min Plain_MaxParallelWorkers (min numCPU blockCount)"
  using assms
  by (simp add: Plain_GetOptimalWorkerCount_def Let_def Plain_MinParallelWorkers_def min_def)

text \<open>
  C7, amended. For every enabled CPU-aware driver with at least two CPUs and every
  block count at or above the threshold, \<open>GetOptimalWorkerCount\<close> is the minimum of
  \<open>MaxParallelWorkers\<close> (16), the scaled CPU count and the block count, where the
  scaled CPU count is the CPU count times 1.5, rounded down, when AVX2 and AES are
  flagged (as \<open>New\<close> always does), times 1.2, rounded down, when only AVX is flagged,
  and the CPU count itself otherwise. For the driver without CPU features it is the
  minimum of its \<open>MaxParallelWorkers\<close> (8), the CPU count and the block count.
\<close>

theorem worker_count:
  "(enabled pc \<longrightarrow> 2 \<le> cpuCount pc \<longrightarrow> ParallelThreshold \<le> blockCount \<longrightarrow>
      GetOptimalWorkerCount pc blockCount
        = min MaxParallelWorkers (min (scaled_cpus pc) blockCount)) \<and>
   (2 \<le> numCPU \<longrightarrow> ParallelThreshold \<le> blockCount \<longrightarrow>
      GetOptimalWorkerCount (New_ParallelCrypto numCPU) blockCount
        = min MaxParallelWorkers (min ((numCPU * 3) div 2) blockCount)) \<and>
   MaxParallelWorkers \<le> 16 \<and>
   (plain_enabled ppc \<longrightarrow> 2 \<le> numCPU' \<longrightarrow> Plain_ParallelThreshold \<le> blockCount' \<longrightarrow>
      Plain_GetOptimalWorkerCount numCPU' ppc blockCount'
        = min Plain_MaxParallelWorkers (min numCPU' blockCount')) \<and>
   Plain_MaxParallelWorkers \<le> 16"
proof -
  have a: "2 \<le> numCPU \<longrightarrow> ParallelThreshold \<le> blockCount \<longrightarrow>
      GetOptimalWorkerCount (New_ParallelCrypto numCPU) blockCount
        = min MaxParallelWorkers (min ((numCPU * 3) div 2) blockCount)"
    using GetOptimalWorkerCount_min[of "New_ParallelCrypto numCPU" blockCount]
    by (simp add: New_ParallelCrypto_fields scaled_cpus_New)
  have b: "MaxParallelWorkers \<le> 16" "Plain_MaxParallelWorkers \<le> 16"
    by (simp_all add: MaxParallelWorkers_def Plain_MaxParallelWorkers_def)
  from a b GetOptimalWorkerCount_min[of pc blockCount]
    Plain_GetOptimalWorkerCount_min[of ppc numCPU' blockCount']
  show ?thesis by blast
qed

theorem worker_count_witness:
  "enabled (New_ParallelCrypto 4) \<and> 2 \<le> cpuCount (New_ParallelCrypto 4) \<and>
   ParallelThreshold \<le> 5 \<and> (2::nat) \<le> 4 \<and>
   GetOptimalWorkerCount (New_ParallelCrypto 4) 5 = 5 \<and>
   plain_enabled \<lparr>plain_enabled = True\<rparr> \<and> Plain_ParallelThreshold \<le> 100 \<and>
   Plain_GetOptimalWorkerCount 4 \<lparr>plain_enabled = True\<rparr> 100 = 4"
  using worker_count[of "New_ParallelCrypto 4" 5 4 "\<lparr>plain_enabled = True\<rparr>" 4 100]
  by (simp add: New_ParallelCrypto_fields ParallelThreshold_def
      Plain_ParallelThreshold_def MaxParallelWorkers_def Plain_MaxParallelWorkers_def
      scaled_cpus_New)

section \<open>Shards and the order of the output\<close>

lemma upt_split: "a \<le> e \<Longrightarrow> e \<le> b \<Longrightarrow> [a..<e] @ [e..<b] = [a..<b]"
  using upt_add_eq_append[of a e "b - e"] by simp

lemma chained_indices:
  "chained a rs b \<Longrightarrow> a \<le> b \<and> indices_of rs = [a..<b]"
proof (induction rs arbitrary: a)
  case Nil
  then show ?case by (simp add: indices_of_def)
next
  case (Cons r rs)
  obtain s e where r: "r = (s, e)" by (cases r)
  from Cons.prems r have sa: "s = a" and se: "s \<le> e" and rest: "chained e rs b" by simp_all
  from Cons.IH[OF rest] have eb: "e \<le> b" and ind: "indices_of rs = [e..<b]" by simp_all
  have "indices_of (r # rs) = [s..<e] @ indices_of rs" by (simp add: indices_of_def r)
  also have "\<dots> = [a..<b]" using sa se eb ind by (simp add: upt_split)
  finally show ?case using sa se eb by simp
qed

lemma chained_worker_calls:
  assumes "k < w" and "(w - 1) * g \<le> n"
  shows "chained (k * g)
           (map (\<lambda>workerID. (workerID * g, if workerID = w - 1 then n else (workerID + 1) * g))
                [k..<w]) n"
  using assms
proof (induction "w - k" arbitrary: k)
  case 0
  then show ?case by simp
next
  case (Suc d)
  have up: "[k..<w] = k # [Suc k..<w]" using Suc.prems(1) by (rule upt_conv_Cons)
  show ?case
  proof (cases "k = w - 1")
    case True
    then have "[Suc k..<w] = []" using Suc.prems(1) by simp
    with True up Suc.prems show ?thesis by simp
  next
    case False
    with Suc.prems(1) have lt: "Suc k < w" by simp
    have d: "d = w - Suc k" using Suc.hyps(2) by simp
    from Suc.hyps(1)[OF d lt Suc.prems(2)] False up show ?thesis by simp
  qed
qed

lemma parallel_workers_positive:
  assumes "ShouldUseParallel pc blockCount"
  shows "2 \<le> GetOptimalWorkerCount pc blockCount"
    and "GetOptimalWorkerCount pc blockCount \<le> blockCount"
  using assms
  by (auto simp: ShouldUseParallel_def GetOptimalWorkerCount_def Let_def ParallelThreshold_def
      MinParallelWorkers_def MaxParallelWorkers_def split: if_splits)

lemma ProcessBlocksParallel_chained:
  "chained 0 (ProcessBlocksParallel pc blockCount) blockCount"
proof (cases "ShouldUseParallel pc blockCount")
  case False
  then show ?thesis by (simp add: ProcessBlocksParallel_def)
next
  case True
  define w where "w = GetOptimalWorkerCount pc blockCount"
  define g where "g = blockCount div w"
  have w: "0 < w" using parallel_workers_positive(1)[OF True] by (simp add: w_def)
  have "(w - 1) * g \<le> w * g" by (simp add: mult_le_mono1)
  also have "\<dots> \<le> blockCount" by (simp add: g_def)
  finally have le: "(w - 1) * g \<le> blockCount" .
  have "ProcessBlocksParallel pc blockCount =
        map (\<lambda>workerID. (workerID * g, if workerID = w - 1 then blockCount else (workerID + 1) * g))
            [0..<w]"
    using True by (simp add: ProcessBlocksParallel_def Let_def w_def g_def)
  moreover have "chained (0 * g)
        (map (\<lambda>workerID. (workerID * g, if workerID = w - 1 then blockCount else (workerID + 1) * g))
            [0..<w]) blockCount"
    using w le by (rule chained_worker_calls)
  ultimately show ?thesis by simp
qed

lemma ProcessBlocksParallel_indices:
  "indices_of (ProcessBlocksParallel pc blockCount) = [0..<blockCount]"
  using chained_indices[OF ProcessBlocksParallel_chained] by simp

lemma Union_list_update:
  assumes "j < length qs"
  shows "\<Union> (set ` set qs) = set (qs ! j) \<union> \<Union> (set ` set (qs[j := []]))"
proof -
  have a: "qs = take j qs @ (qs ! j) # drop (Suc j) qs"
    using assms by (rule id_take_nth_drop)
  have b: "qs[j := []] = take j qs @ [] # drop (Suc j) qs"
    using assms by (rule upd_conv_take_nth_drop)
  have "\<Union> (set ` set qs) = \<Union> (set ` set (take j qs @ (qs ! j) # drop (Suc j) qs))"
    using a by simp
  also have "\<dots> = set (qs ! j) \<union> \<Union> (set ` set (take j qs @ [] # drop (Suc j) qs))"
    by auto
  finally show ?thesis using b by simp
qed

lemma Union_list_update_tl:
  assumes "j < length qs" and "qs ! j \<noteq> []"
  shows "\<Union> (set ` set qs) = insert (hd (qs ! j)) (\<Union> (set ` set (qs[j := tl (qs ! j)])))"
proof -
  let ?qs' = "qs[j := tl (qs ! j)]"
  have j': "j < length ?qs'" using assms(1) by simp
  have "\<Union> (set ` set ?qs') = set (?qs' ! j) \<union> \<Union> (set ` set (?qs'[j := []]))"
    using j' by (rule Union_list_update)
  also have "\<dots> = set (tl (qs ! j)) \<union> \<Union> (set ` set (qs[j := []]))"
    using assms(1) by simp
  finally have "insert (hd (qs ! j)) (\<Union> (set ` set ?qs'))
                  = set (hd (qs ! j) # tl (qs ! j)) \<union> \<Union> (set ` set (qs[j := []]))"
    by simp
  also have "\<dots> = set (qs ! j) \<union> \<Union> (set ` set (qs[j := []]))"
    using assms(2) by simp
  also have "\<dots> = \<Union> (set ` set qs)"
    using Union_list_update[OF assms(1)] by simp
  finally show ?thesis by simp
qed

lemma interleaving_set:
  "interleaving sched qs \<Longrightarrow> set sched = \<Union> (set ` set qs)"
proof (induction sched arbitrary: qs)
  case Nil
  then show ?case by auto
next
  case (Cons x xs)
  then obtain j where j: "j < length qs" and ne: "qs ! j \<noteq> []" and hd: "hd (qs ! j) = x"
    and rest: "interleaving xs (qs[j := tl (qs ! j)])"
    by auto
  from Cons.IH[OF rest] have "set xs = \<Union> (set ` set (qs[j := tl (qs ! j)]))" .
  with Union_list_update_tl[OF j ne] hd show ?case by simp
qed

lemma set_concat_worker_sequences:
  "\<Union> (set ` set (worker_sequences calls)) = set (indices_of calls)"
  by (auto simp: worker_sequences_def indices_of_def)

lemma schedule_visits_all:
  assumes "interleaving sched (worker_sequences (ProcessBlocksParallel pc blockCount))"
  shows "set sched = {0..<blockCount}"
  using interleaving_set[OF assms]
  by (simp add: set_concat_worker_sequences ProcessBlocksParallel_indices)

lemma run_iterations_all_ok:
  assumes "\<And>i. i \<in> set sched \<Longrightarrow>
             DecryptBlock be (cipherBlocks ! i) (firstBlockNo + of_nat i) fileID = Inr (pt i)"
  shows "run_iterations (decrypt_iteration be cipherBlocks firstBlockNo fileID) sched (pb, None)
           = Inr (fold (\<lambda>i pb. pb[i := Some (pt i)]) sched pb, None)"
  using assms
proof (induction sched arbitrary: pb)
  case Nil
  then show ?case by simp
next
  case (Cons i rest)
  have step: "decrypt_iteration be cipherBlocks firstBlockNo fileID i (pb, None)
                = Inr (pb[i := Some (pt i)], None)"
    using Cons.prems[of i] by (simp add: decrypt_iteration_def Let_def)
  have "run_iterations (decrypt_iteration be cipherBlocks firstBlockNo fileID) rest
          (pb[i := Some (pt i)], None)
        = Inr (fold (\<lambda>i pb. pb[i := Some (pt i)]) rest (pb[i := Some (pt i)]), None)"
    by (rule Cons.IH) (simp add: Cons.prems)
  with step show ?case by simp
qed

lemma fold_update_length:
  "length (fold (\<lambda>i pb. pb[i := f i]) sched pb) = length pb"
  by (induction sched arbitrary: pb) simp_all

lemma fold_update_nth:
  "j < length pb \<Longrightarrow>
   fold (\<lambda>i pb. pb[i := f i]) sched pb ! j = (if j \<in> set sched then f j else pb ! j)"
proof (induction sched arbitrary: pb)
  case Nil
  then show ?case by simp
next
  case (Cons i rest)
  have "j < length (pb[i := f i])" using Cons.prems by simp
  from Cons.IH[OF this] Cons.prems show ?case by (auto simp: nth_list_update)
qed

lemma fold_update_all:
  assumes "set sched = {0..<n}"
  shows "fold (\<lambda>i pb. pb[i := f i]) sched (replicate n None) = map f [0..<n]"
proof (rule nth_equalityI)
  show "length (fold (\<lambda>i pb. pb[i := f i]) sched (replicate n None)) = length (map f [0..<n])"
    by (simp add: fold_update_length)
next
  fix j assume "j < length (fold (\<lambda>i pb. pb[i := f i]) sched (replicate n None))"
  then have j: "j < n" by (simp add: fold_update_length)
  then show "fold (\<lambda>i pb. pb[i := f i]) sched (replicate n None) ! j = map f [0..<n] ! j"
    using assms by (simp add: fold_update_nth)
qed

lemma concat_some_blocks:
  "concat (map (\<lambda>block. case block of None \<Rightarrow> [] | Some p \<Rightarrow> p) (map (\<lambda>i. Some (pt i)) xs))
     = concat (map pt xs)"
  by (induction xs) simp_all

lemma decryptBlocksParallel_all_ok:
  assumes vis: "set sched = {0..<blockCount}"
    and ok: "\<And>i. i < blockCount \<Longrightarrow>
               DecryptBlock be (split_blocks be ciphertext blockCount ! i) (firstBlockNo + of_nat i) fileID
                 = Inr (pt i)"
  shows "decryptBlocksParallel be sched ciphertext firstBlockNo fileID blockCount
           = Inr (concat (map pt [0..<blockCount]), None)"
proof -
  have "run_iterations
          (decrypt_iteration be (split_blocks be ciphertext blockCount) firstBlockNo fileID)
          sched (replicate blockCount None, None)
        = Inr (fold (\<lambda>i pb. pb[i := Some (pt i)]) sched (replicate blockCount None), None)"
    by (rule run_iterations_all_ok) (use vis ok in auto)
  also have "fold (\<lambda>i pb. pb[i := Some (pt i)]) sched (replicate blockCount None)
               = map (\<lambda>i. Some (pt i)) [0..<blockCount]"
    using vis by (rule fold_update_all)
  finally show ?thesis
    by (simp add: decryptBlocksParallel_def Let_def assemble_def comp_def)
qed

lemma split_blocks_nth:
  "i < blockCount \<Longrightarrow>
   split_blocks be ciphertext blockCount ! i = take (cipherBS be) (drop (i * cipherBS be) ciphertext)"
  by (simp add: split_blocks_def Let_def)

lemma upt4: "[0..<4] = [0, 1, 2, 3 :: nat]"
  by (simp add: upt_rec)

lemma toy_workers: "GetOptimalWorkerCount (New_ParallelCrypto 4) 4 = 4"
  by (simp add: GetOptimalWorkerCount_def
      New_ParallelCrypto_def detectCPUFeatures_def ParallelThreshold_def MinParallelWorkers_def
      MaxParallelWorkers_def Let_def)

lemma toy_parallel: "ShouldUseParallel (New_ParallelCrypto 4) 4"
  by (simp add: ShouldUseParallel_def New_ParallelCrypto_def detectCPUFeatures_def
        ParallelThreshold_def MinParallelWorkers_def)

lemma toy_shards:
  "ProcessBlocksParallel (New_ParallelCrypto 4) 4 = [(0, 1), (1, 2), (2, 3), (3, 4)]"
  by (simp add: ProcessBlocksParallel_def toy_parallel toy_workers Let_def upt4)

lemma toy_sequences:
  "worker_sequences [(0, 1), (1, 2), (2, 3), (3, 4)] = [[0], [1], [2], [3]]"
  by (simp add: worker_sequences_def upt_rec)

lemma toy_schedule:
  "interleaving [2, 0, 3, 1] [[0], [1], [2], [3]]"
  by code_simp

lemma sequential_loop_all_ok:
  assumes pos: "0 < cipherBS be"
    and whole: "n * cipherBS be \<le> length ciphertext"
    and short: "length ciphertext - n * cipherBS be < cipherBS be"
    and blocks: "\<And>i. i < n \<Longrightarrow>
        DecryptBlock be (take (cipherBS be) (drop (i * cipherBS be) ciphertext))
          (firstBlockNo + of_nat i) fileID = Inr (pt i)"
    and tail: "DecryptBlock be (drop (n * cipherBS be) ciphertext)
                 (firstBlockNo + of_nat n) fileID = Inr q"
    and k: "k \<le> n"
  shows "decryptBlocksSequential_loop be (drop (k * cipherBS be) ciphertext) pBuf
           (firstBlockNo + of_nat k) fileID
         = Inr (pBuf @ concat (map pt [k..<n]) @ q, None)"
  using k
proof (induction "n - k" arbitrary: k pBuf)
  case 0
  then have kn: "k = n" by simp
  let ?tail = "drop (n * cipherBS be) ciphertext"
  show ?case
  proof (cases "?tail = []")
    case True
    with tail have "q = []" by (simp add: DecryptBlock_def)
    with True kn show ?thesis
      by (subst decryptBlocksSequential_loop.simps) (simp del: decryptBlocksSequential_loop.simps)
  next
    case False
    have len: "length ?tail < cipherBS be" using short by simp
    then have t: "take (cipherBS be) ?tail = ?tail"
      and d: "drop (cipherBS be + n * cipherBS be) ciphertext = []"
      by simp_all
    have last: "decryptBlocksSequential_loop be [] (pBuf @ q) (firstBlockNo + of_nat n + 1) fileID
                  = Inr (pBuf @ q, None)"
      by (subst decryptBlocksSequential_loop.simps) (simp del: decryptBlocksSequential_loop.simps)
    show ?thesis
      unfolding kn
      by (subst decryptBlocksSequential_loop.simps)
         (use False pos last in \<open>simp add: Let_def t d tail del: decryptBlocksSequential_loop.simps\<close>)
  qed
next
  case (Suc d)
  then have kn: "k < n" by simp
  let ?rest = "drop (k * cipherBS be) ciphertext"
  have lt: "k * cipherBS be < n * cipherBS be" using kn pos by simp
  have "k * cipherBS be < length ciphertext" using lt whole by (rule less_le_trans)
  then have ne: "length ?rest > 0" by simp
  have dd: "drop (cipherBS be) ?rest = drop (Suc k * cipherBS be) ciphertext"
    by (simp add: add.commute)
  have no: "firstBlockNo + of_nat k + 1 = firstBlockNo + (1 + of_nat k)"
    by (simp add: ac_simps)
  have IH: "decryptBlocksSequential_loop be (drop (Suc k * cipherBS be) ciphertext) (pBuf @ pt k)
              (firstBlockNo + of_nat (Suc k)) fileID
            = Inr ((pBuf @ pt k) @ concat (map pt [Suc k..<n]) @ q, None)"
    by (rule Suc.hyps(1)) (use Suc.hyps(2) kn in simp_all)
  have up: "[k..<n] = k # [Suc k..<n]" using kn by (rule upt_conv_Cons)
  show ?case
    by (subst decryptBlocksSequential_loop.simps)
       (use ne pos IH in \<open>simp add: Let_def blocks[OF kn] up no
            del: decryptBlocksSequential_loop.simps\<close>)
qed

text \<open>
  The concrete group: four whole blocks of a two-byte block size and a final block
  that holds one byte of plaintext, all produced by \<open>EncryptBlock\<close>. The four
  plaintexts differ, so the order of the output is visible.
\<close>

lemma New_small: "New 131072 4 toy_cc 2 = Inr small_be"
  by (simp add: New_def small_be_def toy_cc_def AuthTagLen_def)

lemma small_be_fields:
  "cipherBS small_be = 34" "parallelCrypto small_be = New_ParallelCrypto 4"
  by (simp_all add: small_be_def)

lemma group_lengths:
  "length group_block0 = 34" "length group_block1 = 34" "length group_block2 = 34"
  "length group_block3 = 34" "length group_final = 33" "length example_group = 169"
  by (simp_all add: group_block0_def group_block1_def group_block2_def group_block3_def
      group_final_def example_group_def)

lemma group_split:
  "take 34 (drop (0 * 34) example_group) = group_block0"
  "take 34 (drop (1 * 34) example_group) = group_block1"
  "take 34 (drop (2 * 34) example_group) = group_block2"
  "take 34 (drop (3 * 34) example_group) = group_block3"
  "drop (4 * 34) example_group = group_final"
  by (simp_all add: example_group_def group_lengths)

lemma PutUint64_small:
  "PutUint64 0 = [0,0,0,0,0,0,0,0]" "PutUint64 1 = [0,0,0,0,0,0,0,1]"
  "PutUint64 2 = [0,0,0,0,0,0,0,2]" "PutUint64 3 = [0,0,0,0,0,0,0,3]"
  "PutUint64 4 = [0,0,0,0,0,0,0,4]"
  by (simp_all add: PutUint64_def upt8)

lemma group_encrypted:
  "EncryptBlock (replicate 16 1) small_be [10, 11] 0 None = Inr group_block0"
  "EncryptBlock (replicate 16 2) small_be [20, 21] 1 None = Inr group_block1"
  "EncryptBlock (replicate 16 3) small_be [30, 31] 2 None = Inr group_block2"
  "EncryptBlock (replicate 16 4) small_be [40, 41] 3 None = Inr group_block3"
  "EncryptBlock (replicate 16 5) small_be [50] 4 None = Inr group_final"
  by (simp_all add: EncryptBlock_def doEncryptBlock_def small_be_def toy_cc_def concatAD_def
      BlockOverhead_def toy_Seal_def toy_tag_def xor_all_def PutUint64_small Let_def
      group_block0_def group_block1_def group_block2_def group_block3_def group_final_def
      replicate16)

lemma Cons_eq_replicate:
  "x # xs = replicate n y \<longleftrightarrow> n \<noteq> 0 \<and> x = y \<and> xs = replicate (n - 1) y"
  by (cases n) auto

lemma group_decrypted:
  "DecryptBlock small_be group_block0 0 None = Inr [10, 11]"
  "DecryptBlock small_be group_block1 1 None = Inr [20, 21]"
  "DecryptBlock small_be group_block2 2 None = Inr [30, 31]"
  "DecryptBlock small_be group_block3 3 None = Inr [40, 41]"
  "DecryptBlock small_be group_final 4 None = Inr [50]"
  by (simp_all add: DecryptBlock_def small_be_def toy_cc_def concatAD_def
      toy_Open_def toy_tag_def xor_all_def PutUint64_small Let_def
      group_block0_def group_block1_def group_block2_def group_block3_def group_final_def
      replicate16 replicate15 Cons_eq_replicate)

lemma less_4_cases: "i < 4 \<Longrightarrow> i = 0 \<or> i = 1 \<or> i = 2 \<or> i = (3::nat)"
  by arith

lemma group_whole_blocks:
  "\<forall>i<4. DecryptBlock small_be
            (take (cipherBS small_be) (drop (i * cipherBS small_be) example_group))
            (0 + of_nat i) None = Inr (group_plain i)"
proof (intro allI impI)
  fix i :: nat assume "i < 4"
  then consider "i = 0" | "i = 1" | "i = 2" | "i = 3" using less_4_cases by blast
  then show "DecryptBlock small_be
            (take (cipherBS small_be) (drop (i * cipherBS small_be) example_group))
            (0 + of_nat i) None = Inr (group_plain i)"
  proof cases
    case 1
    then show ?thesis
      using group_split(1) group_decrypted(1) by (simp add: small_be_fields group_plain_def)
  next
    case 2
    then show ?thesis
      using group_split(2) group_decrypted(2) by (simp add: small_be_fields group_plain_def)
  next
    case 3
    then show ?thesis
      using group_split(3) group_decrypted(3) by (simp add: small_be_fields group_plain_def)
  next
    case 4
    then show ?thesis
      using group_split(4) group_decrypted(4) by (simp add: small_be_fields group_plain_def)
  qed
qed

lemma group_plain_concat:
  "concat (map group_plain [0..<4]) = [10, 11, 20, 21, 30, 31, 40, 41]"
  by (simp add: upt4 group_plain_def)

text \<open>
  C8. The first half of the claim holds: the ranges that \<open>ProcessBlocksParallel\<close>
  passes to the worker follow one another from 0 to \<open>blockCount\<close>, each starting where
  the previous one ended, and listed worker after worker they visit every index of
  \<open>[0, blockCount)\<close> exactly once. The consequence drawn for \<open>DecryptBlocks\<close> does not
  hold. \<open>DecryptBlocks\<close> sets \<open>blockCount = len(ciphertext) / cipherBS\<close> and its parallel
  path reads \<open>blockCount * cipherBS\<close> bytes only. When the ciphertext ends in a short
  final block that decrypts to a non-empty plaintext \<open>q\<close>, the parallel path returns,
  for every schedule of the workers, the plaintexts of the whole blocks in block
  order and nothing else, although no error occurred; the sequential path
  \<open>decryptBlocksSequential\<close>, run on the same ciphertext, returns the same bytes
  followed by \<open>q\<close>. The result of \<open>DecryptBlocks\<close> is then not the concatenation of
  the plaintexts of the blocks of its input.
\<close>

theorem DecryptBlocks_drops_short_final_block:
  assumes pos: "0 < cipherBS be"
    and n: "n = length ciphertext div cipherBS be"
    and par: "ShouldUseParallel (parallelCrypto be) n"
    and sched: "interleaving sched
                  (worker_sequences (ProcessBlocksParallel (parallelCrypto be) n))"
    and blocks: "\<forall>i<n. DecryptBlock be
                          (take (cipherBS be) (drop (i * cipherBS be) ciphertext))
                          (firstBlockNo + of_nat i) fileID = Inr (pt i)"
    and final: "DecryptBlock be (drop (n * cipherBS be) ciphertext)
                  (firstBlockNo + of_nat n) fileID = Inr q"
    and q: "q \<noteq> []"
  shows "chained 0 (ProcessBlocksParallel (parallelCrypto be) n) n \<and>
         indices_of (ProcessBlocksParallel (parallelCrypto be) n) = [0..<n] \<and>
         DecryptBlocks be sched ciphertext firstBlockNo fileID
           = Some (Inr (concat (map pt [0..<n]), None)) \<and>
         decryptBlocksSequential be ciphertext firstBlockNo fileID
           = Some (Inr (concat (map pt [0..<n]) @ q, None)) \<and>
         concat (map pt [0..<n]) \<noteq> concat (map pt [0..<n]) @ q"
proof -
  have n0: "n \<noteq> 0"
    using par by (auto simp: ShouldUseParallel_def ParallelThreshold_def split: if_splits)
  have vis: "set sched = {0..<n}" using sched by (rule schedule_visits_all)
  have "decryptBlocksParallel be sched ciphertext firstBlockNo fileID n
          = Inr (concat (map pt [0..<n]), None)"
    using vis by (rule decryptBlocksParallel_all_ok) (simp add: split_blocks_nth blocks)
  then have par_result: "DecryptBlocks be sched ciphertext firstBlockNo fileID
           = Some (Inr (concat (map pt [0..<n]), None))"
    using pos n n0 par by (simp add: DecryptBlocks_def Let_def)
  have whole: "n * cipherBS be \<le> length ciphertext"
    unfolding n by (simp add: mult.commute)
  have "length ciphertext - n * cipherBS be = length ciphertext mod cipherBS be"
    unfolding n by (simp add: minus_div_mult_eq_mod)
  then have short: "length ciphertext - n * cipherBS be < cipherBS be"
    using pos by simp
  have "decryptBlocksSequential_loop be (drop (0 * cipherBS be) ciphertext) []
           (firstBlockNo + of_nat 0) fileID
         = Inr ([] @ concat (map pt [0..<n]) @ q, None)"
    using pos whole short _ final
    by (rule sequential_loop_all_ok) (simp_all add: blocks)
  then have seq_result: "decryptBlocksSequential be ciphertext firstBlockNo fileID
           = Some (Inr (concat (map pt [0..<n]) @ q, None))"
    using pos by (simp add: decryptBlocksSequential_def del: decryptBlocksSequential_loop.simps)
  from par_result seq_result q
    ProcessBlocksParallel_chained[of "parallelCrypto be" n]
    ProcessBlocksParallel_indices[of "parallelCrypto be" n]
  show ?thesis by simp
qed

theorem DecryptBlocks_drops_short_final_block_witness:
  "New 131072 4 toy_cc 2 = Inr small_be \<and>
   EncryptBlock (replicate 16 1) small_be [10, 11] 0 None = Inr group_block0 \<and>
   EncryptBlock (replicate 16 2) small_be [20, 21] 1 None = Inr group_block1 \<and>
   EncryptBlock (replicate 16 3) small_be [30, 31] 2 None = Inr group_block2 \<and>
   EncryptBlock (replicate 16 4) small_be [40, 41] 3 None = Inr group_block3 \<and>
   EncryptBlock (replicate 16 5) small_be [50] 4 None = Inr group_final \<and>
   example_group = group_block0 @ group_block1 @ group_block2 @ group_block3 @ group_final \<and>
   ShouldUseParallel (parallelCrypto small_be) 4 \<and>
   ProcessBlocksParallel (parallelCrypto small_be) 4 = [(0, 1), (1, 2), (2, 3), (3, 4)] \<and>
   interleaving [2, 0, 3, 1]
     (worker_sequences (ProcessBlocksParallel (parallelCrypto small_be) 4)) \<and>
   DecryptBlock small_be (drop (4 * cipherBS small_be) example_group) 4 None = Inr [50] \<and>
   DecryptBlocks small_be [2, 0, 3, 1] example_group 0 None
     = Some (Inr ([10, 11, 20, 21, 30, 31, 40, 41], None)) \<and>
   decryptBlocksSequential small_be example_group 0 None
     = Some (Inr ([10, 11, 20, 21, 30, 31, 40, 41, 50], None))"
proof -
  have a: "0 < cipherBS small_be" by (simp add: small_be_fields)
  have b: "4 = length example_group div cipherBS small_be"
    by (simp add: small_be_fields group_lengths)
  have c: "ShouldUseParallel (parallelCrypto small_be) 4"
    unfolding small_be_fields by (rule toy_parallel)
  have s: "ProcessBlocksParallel (parallelCrypto small_be) 4 = [(0, 1), (1, 2), (2, 3), (3, 4)]"
    unfolding small_be_fields by (rule toy_shards)
  have d: "interleaving [2, 0, 3, 1]
             (worker_sequences (ProcessBlocksParallel (parallelCrypto small_be) 4))"
    unfolding small_be_fields toy_shards toy_sequences by (rule toy_schedule)
  have e: "DecryptBlock small_be (drop (4 * cipherBS small_be) example_group)
             (0 + of_nat 4) None = Inr [50]"
    using group_split(5) group_decrypted(5) by (simp add: small_be_fields)
  have f: "[50] \<noteq> ([] :: byte list)" by simp
  from DecryptBlocks_drops_short_final_block[OF a b c d group_whole_blocks e f]
  have "DecryptBlocks small_be [2, 0, 3, 1] example_group 0 None
          = Some (Inr ([10, 11, 20, 21, 30, 31, 40, 41], None))"
    and "decryptBlocksSequential small_be example_group 0 None
          = Some (Inr ([10, 11, 20, 21, 30, 31, 40, 41, 50], None))"
    by (simp_all add: group_plain_concat)
  with New_small group_encrypted c s d e show ?thesis
    by (simp add: example_group_def)
qed

section \<open>Authenticated filenames\<close>

lemma length_encodeURL: "length encodeURL = 64"
  by (simp add: encodeURL_def)

lemma distinct_encodeURL: "distinct encodeURL"
  by (simp add: encodeURL_def)

lemma index_of_nth:
  "distinct xs \<Longrightarrow> i < length xs \<Longrightarrow> index_of (xs ! i) xs = Some i"
proof (induction xs arbitrary: i)
  case Nil
  then show ?case by simp
next
  case (Cons y ys)
  show ?case
  proof (cases i)
    case 0
    then show ?thesis by simp
  next
    case (Suc j)
    with Cons.prems have j: "j < length ys" and d: "distinct ys" and "ys ! j \<noteq> y"
      by auto
    with Cons.IH[OF d j] Suc show ?thesis by simp
  qed
qed

lemma index_of_None: "index_of x xs = None \<longleftrightarrow> x \<notin> set xs"
  by (induction xs) (auto split: option.splits)

lemma decodeMap_encode: "i < 64 \<Longrightarrow> decodeMap (encodeURL ! i) = Some i"
  unfolding decodeMap_def
  by (rule index_of_nth) (simp_all add: distinct_encodeURL length_encodeURL)

lemma special_not_in_alphabet:
  "CHR ''.'' \<notin> set encodeURL" "padChar \<notin> set encodeURL"
  "CHR 0x0A \<notin> set encodeURL" "CHR 0x0D \<notin> set encodeURL"
  by (simp_all add: encodeURL_def padChar_def)

lemma encodeURL_nth_in: "i < 64 \<Longrightarrow> encodeURL ! i \<in> set encodeURL"
  by (simp add: length_encodeURL)

lemma sextet_less: "sextet val shift < 64"
  by (simp add: sextet_def)

lemma encodeURL_nth_not_sep: "CHR ''.'' \<noteq> encodeURL ! sextet val shift"
  using encodeURL_nth_in[OF sextet_less, of val shift] special_not_in_alphabet(1) by auto

lemma no_separator_in_EncodeToString: "CHR ''.'' \<notin> set (EncodeToString xs)"
  by (induction xs rule: EncodeToString.induct)
     (simp_all add: Let_def encodeURL_nth_not_sep padChar_def)

lemma decodeMap_special:
  "decodeMap padChar = None" "\<not> is_newline padChar"
  using special_not_in_alphabet(2)
  by (simp_all add: decodeMap_def index_of_None is_newline_def padChar_def)

lemma decodeMap_sextet: "decodeMap (encodeURL ! sextet val shift) = Some (sextet val shift)"
  by (rule decodeMap_encode) (rule sextet_less)

lemma unat_byte_less: "unat (a :: byte) < 256"
  using unsigned_less[of a, where ?'a = nat] by simp

lemma sextets_recompose:
  fixes v :: nat
  assumes "v < 16777216"
  shows "sextet v 18 * 262144 + sextet v 12 * 4096 + sextet v 6 * 64 + sextet v 0 = v"
proof -
  define d1 d2 d3 where "d1 = v div 64" and "d2 = v div 4096" and "d3 = v div 262144"
  have q2: "d2 = d1 div 64" and q3: "d3 = d2 div 64"
    by (simp_all add: d1_def d2_def d3_def div_mult2_eq[symmetric])
  have top: "d3 div 64 = 0" using assms by (simp add: d3_def div_mult2_eq[symmetric])
  have e: "sextet v 0 = v mod 64" "sextet v 6 = d1 mod 64" "sextet v 12 = d2 mod 64"
    "sextet v 18 = d3 mod 64"
    by (simp_all add: d1_def d2_def d3_def sextet_def)
  have s0: "v = d1 * 64 + v mod 64" by (simp add: d1_def)
  have s1: "d1 = d2 * 64 + d1 mod 64" by (simp add: q2)
  have s2: "d2 = d3 * 64 + d2 mod 64" by (simp add: q3)
  have s3: "d3 = d3 mod 64" using top by (metis div_mult_mod_eq mult_zero_left add_0)
  define r0 r1 r2 r3 where "r0 = v mod 64" and "r1 = d1 mod 64" and "r2 = d2 mod 64"
    and "r3 = d3 mod 64"
  have "v = ((r3 * 64 + r2) * 64 + r1) * 64 + r0"
    using s0 s1 s2 s3 unfolding r0_def[symmetric] r1_def[symmetric] r2_def[symmetric]
      r3_def[symmetric] by simp
  then show ?thesis unfolding e r0_def[symmetric] r1_def[symmetric] r2_def[symmetric]
      r3_def[symmetric] by simp
qed

lemma byte_of_nat_eq:
  assumes "n mod 256 = unat b"
  shows "(of_nat n :: byte) = b"
proof (rule unsigned_word_eqI[where ?'a = nat])
  show "unat (of_nat n :: byte) = unat b"
    using assms by (simp add: unat_of_nat)
qed

lemma div_mod_parts:
  fixes q n r :: nat
  assumes "r < n"
  shows "(q * n + r) div n = q" and "(q * n + r) mod n = r"
  using assms by simp_all

lemma val3:
  fixes a b c :: byte
  defines "v \<equiv> unat a * 65536 + unat b * 256 + unat c"
  shows "v < 16777216" and "v div 65536 mod 256 = unat a" and "v div 256 mod 256 = unat b"
    and "v mod 256 = unat c"
proof -
  have a: "unat a < 256" and b: "unat b < 256" and c: "unat c < 256"
    by (rule unat_byte_less)+
  show "v < 16777216" unfolding v_def using a b c by linarith
  have lo: "unat b * 256 + unat c < 65536" using b c by linarith
  have v1: "v = unat a * 65536 + (unat b * 256 + unat c)" by (simp add: v_def)
  have "v div 65536 = unat a" unfolding v1 using lo by (rule div_mod_parts(1))
  then show "v div 65536 mod 256 = unat a" using a by simp
  have v2: "v = (unat a * 256 + unat b) * 256 + unat c" by (simp add: v_def algebra_simps)
  have d: "v div 256 = unat a * 256 + unat b" unfolding v2 using c by (rule div_mod_parts(1))
  show "v mod 256 = unat c" unfolding v2 using c by (rule div_mod_parts(2))
  show "v div 256 mod 256 = unat b" unfolding d using b by (rule div_mod_parts(2))
qed

lemma val3_bytes:
  fixes a b c :: byte
  defines "v \<equiv> unat a * 65536 + unat b * 256 + unat c"
  shows "[of_nat (v div 65536), of_nat (v div 256), of_nat v] = [a, b, c]"
proof -
  have "(of_nat (v div 65536) :: byte) = a"
    by (rule byte_of_nat_eq) (simp only: v_def val3(2))
  moreover have "(of_nat (v div 256) :: byte) = b"
    by (rule byte_of_nat_eq) (simp only: v_def val3(3))
  moreover have "(of_nat v :: byte) = c"
    by (rule byte_of_nat_eq) (simp only: v_def val3(4))
  ultimately show ?thesis by simp
qed

lemma quantum_bytes_4:
  "quantum_bytes [d0, d1, d2, d3] =
     [of_nat ((d0 * 262144 + d1 * 4096 + d2 * 64 + d3) div 65536),
      of_nat ((d0 * 262144 + d1 * 4096 + d2 * 64 + d3) div 256),
      of_nat (d0 * 262144 + d1 * 4096 + d2 * 64 + d3)]"
  by (simp add: quantum_bytes_def Let_def)

lemma replicate_2: "replicate 2 x = [x, x]"
  by (simp add: numeral_2_eq_2)

lemma quantum_bytes_3:
  "quantum_bytes [d0, d1, d2] =
     take 2 [of_nat ((d0 * 262144 + d1 * 4096 + d2 * 64 + 0) div 65536),
      of_nat ((d0 * 262144 + d1 * 4096 + d2 * 64 + 0) div 256),
      of_nat (d0 * 262144 + d1 * 4096 + d2 * 64 + 0)]"
  by (simp add: quantum_bytes_def Let_def)

lemma quantum_bytes_2:
  "quantum_bytes [d0, d1] =
     take 1 [of_nat ((d0 * 262144 + d1 * 4096 + 0 * 64 + 0) div 65536),
       of_nat ((d0 * 262144 + d1 * 4096 + 0 * 64 + 0) div 256),
       of_nat (d0 * 262144 + d1 * 4096 + 0 * 64 + 0)]"
  by (simp add: quantum_bytes_def Let_def replicate_2)

lemma decode_quantum_full:
  fixes a b c :: byte
  defines "v \<equiv> unat a * 65536 + unat b * 256 + unat c"
  shows "quantum_bytes [sextet v 18, sextet v 12, sextet v 6, sextet v 0] = [a, b, c]"
proof -
  have "v < 16777216" unfolding v_def by (rule val3(1))
  then have re: "sextet v 18 * 262144 + sextet v 12 * 4096 + sextet v 6 * 64 + sextet v 0 = v"
    by (rule sextets_recompose)
  show ?thesis
    unfolding quantum_bytes_4 re unfolding v_def by (rule val3_bytes)
qed

lemma sextet_zero_low:
  "sextet (unat (a :: byte) * 65536 + unat (b :: byte) * 256) 0 = 0"
  "sextet (unat (a :: byte) * 65536) 0 = 0"
  "sextet (unat (a :: byte) * 65536) 6 = 0"
proof -
  have "(unat a * 65536 + unat b * 256) = (unat a * 1024 + unat b * 4) * 64"
    by (simp add: algebra_simps)
  then show "sextet (unat a * 65536 + unat b * 256) 0 = 0" by (simp add: sextet_def)
  have e: "unat a * 65536 = (unat a * 1024) * 64" by simp
  show "sextet (unat a * 65536) 0 = 0" by (simp add: sextet_def)
  have "unat a * 65536 div 64 = (unat a * 16) * 64" by simp
  then show "sextet (unat a * 65536) 6 = 0" by (simp add: sextet_def)
qed

lemma decode_quantum_two:
  fixes a b :: byte
  defines "v \<equiv> unat a * 65536 + unat b * 256"
  shows "quantum_bytes [sextet v 18, sextet v 12, sextet v 6] = [a, b]"
proof -
  have v0: "v = unat a * 65536 + unat b * 256 + unat (0 :: byte)" by (simp add: v_def)
  have "v < 16777216" unfolding v0 by (rule val3(1))
  then have "sextet v 18 * 262144 + sextet v 12 * 4096 + sextet v 6 * 64 + sextet v 0 = v"
    by (rule sextets_recompose)
  moreover have "sextet v 0 = 0" unfolding v_def by (rule sextet_zero_low(1))
  ultimately have re: "sextet v 18 * 262144 + sextet v 12 * 4096 + sextet v 6 * 64 + 0 = v"
    by simp
  have "[of_nat (v div 65536), of_nat (v div 256), of_nat v] = [a, b, 0]"
    unfolding v0 by (rule val3_bytes)
  then show ?thesis
    unfolding quantum_bytes_3 re by simp
qed

lemma decode_quantum_one:
  fixes a :: byte
  defines "v \<equiv> unat a * 65536"
  shows "quantum_bytes [sextet v 18, sextet v 12] = [a]"
proof -
  have v0: "v = unat a * 65536 + unat (0 :: byte) * 256 + unat (0 :: byte)" by (simp add: v_def)
  have "v < 16777216" unfolding v0 by (rule val3(1))
  then have "sextet v 18 * 262144 + sextet v 12 * 4096 + sextet v 6 * 64 + sextet v 0 = v"
    by (rule sextets_recompose)
  moreover have "sextet v 0 = 0" "sextet v 6 = 0"
    unfolding v_def by (rule sextet_zero_low)+
  ultimately have re: "sextet v 18 * 262144 + sextet v 12 * 4096 + 0 * 64 + 0 = v"
    by simp
  have "[of_nat (v div 65536), of_nat (v div 256), of_nat v] = [a, 0, 0]"
    unfolding v0 by (rule val3_bytes)
  then show ?thesis
    unfolding quantum_bytes_2 re by simp
qed

lemma decode_from_four:
  "decode_from [] (encodeURL ! sextet v 18 # encodeURL ! sextet v 12 # encodeURL ! sextet v 6
                     # encodeURL ! sextet v 0 # src)
     = (case decode_from [] src of
          Inl e \<Rightarrow> Inl e
        | Inr bs \<Rightarrow> Inr (quantum_bytes [sextet v 18, sextet v 12, sextet v 6, sextet v 0] @ bs))"
  by (simp add: decodeMap_sextet split: sum.splits)

lemma decode_from_three_pad:
  "decode_from [] [encodeURL ! sextet v 18, encodeURL ! sextet v 12, encodeURL ! sextet v 6, padChar]
     = Inr (quantum_bytes [sextet v 18, sextet v 12, sextet v 6])"
  by (simp add: decodeMap_sextet decodeMap_special)

lemma decode_from_two_pad:
  "decode_from [] [encodeURL ! sextet v 18, encodeURL ! sextet v 12, padChar, padChar]
     = Inr (quantum_bytes [sextet v 18, sextet v 12])"
  by (simp add: decodeMap_sextet decodeMap_special)

lemma decode_from_EncodeToString: "decode_from [] (EncodeToString xs) = Inr xs"
proof (induction xs rule: EncodeToString.induct)
  case 1
  then show ?case by simp
next
  case (2 a)
  show ?case
    by (simp only: EncodeToString.simps Let_def decode_from_two_pad decode_quantum_one)
next
  case (3 a b)
  show ?case
    by (simp only: EncodeToString.simps Let_def decode_from_three_pad decode_quantum_two)
next
  case (4 a b c rest)
  then show ?case
    by (simp only: EncodeToString.simps Let_def append_Cons append_Nil decode_from_four
        decode_quantum_full sum.case)
qed

lemma DecodeString_EncodeToString: "DecodeString (EncodeToString xs) = Inr xs"
  by (simp add: DecodeString_def decode_from_EncodeToString)

lemma sep_char: "FilenameAuthSeparator ! 0 = CHR ''.''" "FilenameAuthSeparator = [CHR ''.'']"
  by (simp_all add: FilenameAuthSeparator_def)

lemma find_lastSep_after:
  assumes "CHR ''.'' \<notin> set suf" and "k \<le> length suf"
  shows "find_lastSep (pre @ CHR ''.'' # suf) (Suc (length pre + k)) = Some (length pre)"
  using assms(2)
proof (induction k)
  case 0
  show ?case by (simp add: sep_char)
next
  case (Suc k)
  then have k: "k < length suf" by simp
  then have "suf ! k \<in> set suf" by simp
  with assms(1) have "suf ! k \<noteq> CHR ''.''" by metis
  moreover have "(pre @ CHR ''.'' # suf) ! (Suc (length pre + k)) = suf ! k"
    by (simp add: nth_append)
  ultimately show ?case using Suc.IH k by (simp add: sep_char)
qed

lemma splitAuthenticatedName_joined:
  assumes "CHR ''.'' \<notin> set suf"
  shows "splitAuthenticatedName (pre @ CHR ''.'' # suf) = [pre, suf]"
proof -
  have "find_lastSep (pre @ CHR ''.'' # suf) (length (pre @ CHR ''.'' # suf)) = Some (length pre)"
    using find_lastSep_after[OF assms, of "length suf" pre] by simp
  then show ?thesis by (simp add: splitAuthenticatedName_def)
qed

lemma find_lastSep_Some:
  "find_lastSep s n = Some i \<Longrightarrow>
     i < n \<and> s ! i = CHR ''.'' \<and> (\<forall>j. i < j \<and> j < n \<longrightarrow> s ! j \<noteq> CHR ''.'')"
proof (induction n)
  case 0
  then show ?case by simp
next
  case (Suc n)
  show ?case
  proof (cases "s ! n = CHR ''.''")
    case True
    with Suc.prems have "i = n" by (simp add: sep_char)
    with True show ?thesis by auto
  next
    case False
    with Suc.prems have "find_lastSep s n = Some i" by (simp add: sep_char)
    from Suc.IH[OF this] False show ?thesis by (auto simp: less_Suc_eq)
  qed
qed

lemma splitAuthenticatedName_two:
  assumes "splitAuthenticatedName s = [a, b]"
  shows "s = a @ CHR ''.'' # b \<and> CHR ''.'' \<notin> set b"
proof -
  from assms obtain i where f: "find_lastSep s (length s) = Some i"
    and a: "a = take i s" and b: "b = drop (i + 1) s"
    by (auto simp: splitAuthenticatedName_def split: option.splits)
  from find_lastSep_Some[OF f] have i: "i < length s" and si: "s ! i = CHR ''.''"
    and after: "\<forall>j. i < j \<and> j < length s \<longrightarrow> s ! j \<noteq> CHR ''.''" by auto
  have "s = take i s @ s ! i # drop (Suc i) s" using i by (rule id_take_nth_drop)
  then have eq: "s = a @ CHR ''.'' # b" using a b si by simp
  have "CHR ''.'' \<notin> set b"
  proof
    assume "CHR ''.'' \<in> set b"
    then obtain k where k: "k < length b" and bk: "b ! k = CHR ''.''"
      by (auto simp: in_set_conv_nth)
    have e: "b ! k = s ! (i + 1 + k)" using k b by simp
    have l: "i + 1 + k < length s" using k b by simp
    have "i < i + 1 + k" by simp
    with after l have "s ! (i + 1 + k) \<noteq> CHR ''.''" by blast
    with e bk show False by simp
  qed
  with eq show ?thesis by simp
qed

lemma length_splitAuthenticatedName:
  "length (splitAuthenticatedName s) = 2 \<Longrightarrow> \<exists>a b. splitAuthenticatedName s = [a, b]"
  by (auto simp: splitAuthenticatedName_def split: option.splits)

lemma VerifyFilename_joined:
  assumes "auth_enabled fa" and "CHR ''.'' \<notin> set suf"
  shows "VerifyFilename hmac fa (pre @ ''.'' @ suf) =
           (case DecodeString suf of
              Inl err \<Rightarrow> Inl FailedToDecodeMAC
            | Inr mac \<Rightarrow> if mac \<noteq> calculateMAC hmac fa (bytes_of_string pre)
                          then Inl MACMismatch else Inr pre)"
  using assms(1) splitAuthenticatedName_joined[OF assms(2), of pre]
  by (simp add: VerifyFilename_def Let_def split: sum.splits)

lemma VerifyFilename_accepts_iff:
  assumes "auth_enabled fa"
  shows "VerifyFilename hmac fa name = Inr r \<longleftrightarrow>
           (\<exists>suf. name = r @ ''.'' @ suf \<and> CHR ''.'' \<notin> set suf \<and>
                  DecodeString suf = Inr (calculateMAC hmac fa (bytes_of_string r)))"
proof
  assume acc: "VerifyFilename hmac fa name = Inr r"
  with assms have len: "length (splitAuthenticatedName name) = 2"
    by (auto simp: VerifyFilename_def Let_def split: if_splits)
  then obtain a b where ab: "splitAuthenticatedName name = [a, b]"
    using length_splitAuthenticatedName by blast
  from splitAuthenticatedName_two[OF ab]
  have name: "name = a @ ''.'' @ b" and nodot: "CHR ''.'' \<notin> set b" by simp_all
  from acc have "(case DecodeString b of
              Inl err \<Rightarrow> Inl FailedToDecodeMAC
            | Inr mac \<Rightarrow> if mac \<noteq> calculateMAC hmac fa (bytes_of_string a)
                          then Inl MACMismatch else Inr a) = Inr r"
    unfolding name VerifyFilename_joined[OF assms nodot] .
  then have "r = a \<and> DecodeString b = Inr (calculateMAC hmac fa (bytes_of_string r))"
    by (auto split: sum.splits if_splits)
  with name nodot show "\<exists>suf. name = r @ ''.'' @ suf \<and> CHR ''.'' \<notin> set suf \<and>
                  DecodeString suf = Inr (calculateMAC hmac fa (bytes_of_string r))"
    by blast
next
  assume "\<exists>suf. name = r @ ''.'' @ suf \<and> CHR ''.'' \<notin> set suf \<and>
                  DecodeString suf = Inr (calculateMAC hmac fa (bytes_of_string r))"
  then obtain suf where name: "name = r @ ''.'' @ suf" and nodot: "CHR ''.'' \<notin> set suf"
    and dec: "DecodeString suf = Inr (calculateMAC hmac fa (bytes_of_string r))" by blast
  show "VerifyFilename hmac fa name = Inr r"
    unfolding name VerifyFilename_joined[OF assms nodot] by (simp add: dec)
qed

lemma AuthenticateFilename_enabled:
  "auth_enabled fa \<Longrightarrow>
   AuthenticateFilename hmac fa n =
     Inr (n @ ''.'' @ EncodeToString (calculateMAC hmac fa (bytes_of_string n)))"
  by (simp add: AuthenticateFilename_def Let_def sep_char)

lemma toy_mac: "calculateMAC toy_hmac toy_fa (bytes_of_string ''ab'') = replicate 32 3"
  by (simp add: calculateMAC_def toy_hmac_def toy_fa_def bytes_of_string_def xor_all_Cons
      xor_all_Nil)

lemma encode_threes: "EncodeToString (3 # 3 # 3 # rest) = ''AwMD'' @ EncodeToString rest"
  by (simp add: sextet_def encodeURL_def)

lemma encode_two_threes: "EncodeToString [3, 3] = ''AwM=''"
  by (simp add: sextet_def encodeURL_def padChar_def)

lemma decodeMap_examples:
  "decodeMap CHR ''A'' = Some 0" "decodeMap CHR ''w'' = Some 48" "decodeMap CHR ''M'' = Some 12"
  "decodeMap CHR ''D'' = Some 3" "decodeMap CHR ''N'' = Some 13"
  by (simp_all add: decodeMap_def encodeURL_def)

lemma replicate32:
  "replicate 32 x = [x,x,x,x,x,x,x,x,x,x,x,x,x,x,x,x,x,x,x,x,x,x,x,x,x,x,x,x,x,x,x,x]"
  by (simp add: numeral_eq_Suc)

lemma toy_mac_encoded:
  "EncodeToString (replicate 32 3) = ''AwMDAwMDAwMDAwMDAwMDAwMDAwMDAwMDAwMDAwMDAwM=''"
  by (simp only: replicate32 encode_threes encode_two_threes append_Cons append_Nil)

lemma toy_fa_enabled: "auth_enabled toy_fa"
  by (simp add: toy_fa_def)

lemma EncodeToString_append:
  "length xs mod 3 = 0 \<Longrightarrow> EncodeToString (xs @ ys) = EncodeToString xs @ EncodeToString ys"
proof (induction xs rule: EncodeToString.induct)
  case 1
  then show ?case by simp
next
  case (2 a)
  then show ?case by simp
next
  case (3 a b)
  then show ?case by simp
next
  case (4 a b c rest)
  from "4.prems" have "length rest mod 3 = 0" by simp
  with "4.IH" show ?case by (simp add: Let_def)
qed

lemma decode_from_EncodeToString_append:
  "length xs mod 3 = 0 \<Longrightarrow>
   decode_from [] (EncodeToString xs @ src)
     = (case decode_from [] src of Inl e \<Rightarrow> Inl e | Inr bs \<Rightarrow> Inr (xs @ bs))"
proof (induction xs rule: EncodeToString.induct)
  case 1
  then show ?case by (simp split: sum.splits)
next
  case (2 a)
  then show ?case by simp
next
  case (3 a b)
  then show ?case by simp
next
  case (4 a b c rest)
  from "4.prems" have "length rest mod 3 = 0" by simp
  with "4.IH" have IH: "decode_from [] (EncodeToString rest @ src)
     = (case decode_from [] src of Inl e \<Rightarrow> Inl e | Inr bs \<Rightarrow> Inr (rest @ bs))" by simp
  show ?case
    by (simp only: EncodeToString.simps Let_def append_Cons append_Nil decode_from_four
        decode_quantum_full IH)
       (simp split: sum.splits)
qed

lemma sextet_6_two_bytes:
  fixes a b :: byte
  shows "sextet (unat a * 65536 + unat b * 256) 6 mod 4 = 0"
proof -
  have "(unat a * 65536 + unat b * 256) div 2 ^ 6 = (unat a * 256 + unat b) * 4"
    by simp
  then have "sextet (unat a * 65536 + unat b * 256) 6 = ((unat a * 256 + unat b) * 4) mod 64"
    by (simp only: sextet_def)
  also have "\<dots> mod 4 = 0"
    by (simp add: mod_mod_cancel)
  finally show ?thesis .
qed

lemma next_sextet_less:
  fixes a b :: byte
  shows "sextet (unat a * 65536 + unat b * 256) 6 + 1 < 64"
proof -
  define s where "s = sextet (unat a * 65536 + unat b * 256) 6"
  have "s < 64" unfolding s_def by (rule sextet_less)
  moreover have "s mod 4 = 0" unfolding s_def by (rule sextet_6_two_bytes)
  ultimately have "s + 1 < 64" by presburger
  then show ?thesis unfolding s_def .
qed

lemma decode_quantum_two_next:
  fixes a b :: byte
  defines "v \<equiv> unat a * 65536 + unat b * 256"
  shows "quantum_bytes [sextet v 18, sextet v 12, sextet v 6 + 1] = [a, b]"
proof -
  have v0: "v = unat a * 65536 + unat b * 256 + unat (0 :: byte)" by (simp add: v_def)
  have "v < 16777216" unfolding v0 by (rule val3(1))
  then have "sextet v 18 * 262144 + sextet v 12 * 4096 + sextet v 6 * 64 + sextet v 0 = v"
    by (rule sextets_recompose)
  moreover have "sextet v 0 = 0" unfolding v_def by (rule sextet_zero_low(1))
  ultimately have "sextet v 18 * 262144 + sextet v 12 * 4096 + sextet v 6 * 64 = v"
    by simp
  then have re: "sextet v 18 * 262144 + sextet v 12 * 4096 + (sextet v 6 + 1) * 64 + 0
                   = unat a * 65536 + unat b * 256 + unat (64 :: byte)"
    unfolding v_def by simp
  have "[of_nat ((unat a * 65536 + unat b * 256 + unat (64 :: byte)) div 65536),
         of_nat ((unat a * 65536 + unat b * 256 + unat (64 :: byte)) div 256),
         of_nat (unat a * 65536 + unat b * 256 + unat (64 :: byte))] = [a, b, 64]"
    by (rule val3_bytes)
  then show ?thesis
    unfolding quantum_bytes_3 re by simp
qed

lemma tamper_last_digit_snoc2: "tamper_last_digit (p @ [x, y]) = p @ [next_digit x, y]"
  by (simp add: tamper_last_digit_def nth_append)

lemma next_digit_sextet:
  fixes a b :: byte
  defines "v \<equiv> unat a * 65536 + unat b * 256"
  shows "next_digit (encodeURL ! sextet v 6) = encodeURL ! (sextet v 6 + 1)"
    and "encodeURL ! (sextet v 6 + 1) \<noteq> encodeURL ! sextet v 6"
    and "CHR ''.'' \<noteq> encodeURL ! (sextet v 6 + 1)"
    and "decodeMap (encodeURL ! (sextet v 6 + 1)) = Some (sextet v 6 + 1)"
proof -
  have lt: "sextet v 6 + 1 < 64" unfolding v_def by (rule next_sextet_less)
  then show "next_digit (encodeURL ! sextet v 6) = encodeURL ! (sextet v 6 + 1)"
    by (simp add: next_digit_def decodeMap_sextet)
  have "sextet v 6 + 1 < length encodeURL" "sextet v 6 < length encodeURL"
    using lt by (simp_all add: length_encodeURL)
  then show "encodeURL ! (sextet v 6 + 1) \<noteq> encodeURL ! sextet v 6"
    using distinct_encodeURL by (simp add: nth_eq_iff_index_eq)
  show "CHR ''.'' \<noteq> encodeURL ! (sextet v 6 + 1)"
    using encodeURL_nth_in[OF lt] special_not_in_alphabet(1) by auto
  show "decodeMap (encodeURL ! (sextet v 6 + 1)) = Some (sextet v 6 + 1)"
    using lt by (rule decodeMap_encode)
qed

lemma decode_from_three_pad_digit:
  "d < 64 \<Longrightarrow>
   decode_from [] [encodeURL ! sextet v 18, encodeURL ! sextet v 12, encodeURL ! d, padChar]
     = Inr (quantum_bytes [sextet v 18, sextet v 12, d])"
  by (simp add: decodeMap_sextet decodeMap_encode decodeMap_special)

lemma decode_from_three_pad_next:
  fixes a b :: byte
  defines "v \<equiv> unat a * 65536 + unat b * 256"
  shows "decode_from [] [encodeURL ! sextet v 18, encodeURL ! sextet v 12,
                         encodeURL ! (sextet v 6 + 1), padChar] = Inr [a, b]"
  unfolding v_def decode_from_three_pad_digit[OF next_sextet_less] decode_quantum_two_next ..

lemma split_last_two:
  assumes "length (xs :: 'a list) = 32"
  shows "\<exists>ys a b. xs = ys @ [a, b] \<and> length ys = 30"
proof -
  define l where "l = drop 30 xs"
  have "length l = Suc (Suc 0)" using assms by (simp add: l_def)
  then obtain a b where "l = [a, b]"
    by (auto simp: length_Suc_conv)
  moreover have "xs = take 30 xs @ l" by (simp add: l_def)
  moreover have "length (take 30 xs) = 30" using assms by simp
  ultimately show ?thesis by metis
qed

lemma next_digit_M: "next_digit CHR ''M'' = CHR ''N''"
  by (simp add: next_digit_def decodeMap_examples encodeURL_def)

lemma toy_tampered:
  "tamper_last_digit ''ab.AwMDAwMDAwMDAwMDAwMDAwMDAwMDAwMDAwMDAwMDAwM=''
     = ''ab.AwMDAwMDAwMDAwMDAwMDAwMDAwMDAwMDAwMDAwMDAwN=''"
  using tamper_last_digit_snoc2[of "''ab.AwMDAwMDAwMDAwMDAwMDAwMDAwMDAwMDAwMDAwMDAw''"
      "CHR ''M''" "CHR ''=''"]
  by (simp add: next_digit_M)

text \<open>
  C9. The first half of the claim holds: with authentication enabled,
  \<open>VerifyFilename\<close> of \<open>AuthenticateFilename n\<close> returns \<open>n\<close> with no error. The second
  half does not. \<open>VerifyFilename\<close> compares the bytes that
  \<open>base64.URLEncoding.DecodeString\<close> returns, and this decoder is not strict: of the
  last digit before the padding it reads only the bits that belong to a byte. A MAC
  of HMAC-SHA256 has 32 bytes, so its encoding ends in a digit with two such unused
  bits and one padding character. Replacing that digit by the next character of the
  alphabet changes one character of the MAC part, which then is not the encoding of
  the MAC, and \<open>VerifyFilename\<close> still returns the name with no error. This holds
  for every name, every key and every MAC function with 32 bytes of output.
\<close>

theorem VerifyFilename_accepts_tampered_MAC:
  assumes en: "auth_enabled fa"
    and len: "length (calculateMAC hmac fa (bytes_of_string n)) = 32"
  shows "AuthenticateFilename hmac fa n
           = Inr (n @ ''.'' @ EncodeToString (calculateMAC hmac fa (bytes_of_string n))) \<and>
         VerifyFilename hmac fa
           (n @ ''.'' @ EncodeToString (calculateMAC hmac fa (bytes_of_string n))) = Inr n \<and>
         (\<exists>macB64.
            tamper_last_digit
              (n @ ''.'' @ EncodeToString (calculateMAC hmac fa (bytes_of_string n)))
              = n @ ''.'' @ macB64 \<and>
            splitAuthenticatedName (n @ ''.'' @ macB64) = [n, macB64] \<and>
            length macB64 = length (EncodeToString (calculateMAC hmac fa (bytes_of_string n))) \<and>
            macB64 \<noteq> EncodeToString (calculateMAC hmac fa (bytes_of_string n)) \<and>
            VerifyFilename hmac fa (n @ ''.'' @ macB64) = Inr n)"
proof -
  define mac where "mac = calculateMAC hmac fa (bytes_of_string n)"
  from len obtain ys a b where mac: "mac = ys @ [a, b]" and ys: "length ys = 30"
    unfolding mac_def[symmetric] using split_last_two by blast
  define v where "v = unat a * 65536 + unat b * 256"
  define p where "p = EncodeToString ys @ [encodeURL ! sextet v 18, encodeURL ! sextet v 12]"
  define suf where "suf = p @ [encodeURL ! (sextet v 6 + 1), padChar]"
  have ys3: "length ys mod 3 = 0" using ys by simp
  have enc: "EncodeToString mac = p @ [encodeURL ! sextet v 6, padChar]"
    unfolding mac EncodeToString_append[OF ys3] p_def v_def by (simp add: Let_def)
  have auth: "AuthenticateFilename hmac fa n = Inr (n @ ''.'' @ EncodeToString mac)"
    unfolding mac_def using en by (rule AuthenticateFilename_enabled)
  have canon: "VerifyFilename hmac fa (n @ ''.'' @ EncodeToString mac) = Inr n"
    unfolding VerifyFilename_joined[OF en no_separator_in_EncodeToString]
    by (simp add: DecodeString_EncodeToString mac_def)
  have "tamper_last_digit ((n @ ''.'' @ p) @ [encodeURL ! sextet v 6, padChar])
          = (n @ ''.'' @ p) @ [next_digit (encodeURL ! sextet v 6), padChar]"
    by (rule tamper_last_digit_snoc2)
  then have tam: "tamper_last_digit (n @ ''.'' @ EncodeToString mac) = n @ ''.'' @ suf"
    unfolding enc suf_def v_def next_digit_sextet(1) by simp
  have nodot: "CHR ''.'' \<notin> set suf"
    using no_separator_in_EncodeToString[of ys] encodeURL_nth_not_sep[of v 18]
      encodeURL_nth_not_sep[of v 12] next_digit_sextet(3)[of a b]
    by (auto simp: suf_def p_def v_def padChar_def)
  have split: "splitAuthenticatedName (n @ ''.'' @ suf) = [n, suf]"
    using splitAuthenticatedName_joined[OF nodot, of n] by simp
  have length: "length suf = length (EncodeToString mac)"
    by (simp add: suf_def enc)
  have ne: "suf \<noteq> EncodeToString mac"
    unfolding suf_def enc v_def using next_digit_sextet(2)[of a b] by simp
  have "decode_from [] (EncodeToString ys @ [encodeURL ! sextet v 18, encodeURL ! sextet v 12,
                         encodeURL ! (sextet v 6 + 1), padChar]) = Inr (ys @ [a, b])"
    unfolding decode_from_EncodeToString_append[OF ys3] v_def decode_from_three_pad_next
    by simp
  then have dec: "DecodeString suf = Inr mac"
    by (simp add: DecodeString_def suf_def p_def mac)
  have acc: "VerifyFilename hmac fa (n @ ''.'' @ suf) = Inr n"
    unfolding VerifyFilename_joined[OF en nodot] dec by (simp add: mac_def)
  from auth canon tam split length ne acc show ?thesis
    unfolding mac_def by blast
qed

theorem VerifyFilename_accepts_tampered_MAC_witness:
  "auth_enabled toy_fa \<and>
   length (calculateMAC toy_hmac toy_fa (bytes_of_string ''ab'')) = 32 \<and>
   AuthenticateFilename toy_hmac toy_fa ''ab''
     = Inr ''ab.AwMDAwMDAwMDAwMDAwMDAwMDAwMDAwMDAwMDAwMDAwM='' \<and>
   VerifyFilename toy_hmac toy_fa ''ab.AwMDAwMDAwMDAwMDAwMDAwMDAwMDAwMDAwMDAwMDAwM=''
     = Inr ''ab'' \<and>
   tamper_last_digit ''ab.AwMDAwMDAwMDAwMDAwMDAwMDAwMDAwMDAwMDAwMDAwM=''
     = ''ab.AwMDAwMDAwMDAwMDAwMDAwMDAwMDAwMDAwMDAwMDAwN='' \<and>
   splitAuthenticatedName ''ab.AwMDAwMDAwMDAwMDAwMDAwMDAwMDAwMDAwMDAwMDAwN=''
     = [''ab'', ''AwMDAwMDAwMDAwMDAwMDAwMDAwMDAwMDAwMDAwMDAwN=''] \<and>
   VerifyFilename toy_hmac toy_fa ''ab.AwMDAwMDAwMDAwMDAwMDAwMDAwMDAwMDAwMDAwMDAwN=''
     = Inr ''ab''"
proof -
  have len: "length (calculateMAC toy_hmac toy_fa (bytes_of_string ''ab'')) = 32"
    by (simp add: toy_mac)
  have enc: "EncodeToString (calculateMAC toy_hmac toy_fa (bytes_of_string ''ab''))
               = ''AwMDAwMDAwMDAwMDAwMDAwMDAwMDAwMDAwMDAwMDAwM=''"
    by (simp only: toy_mac toy_mac_encoded)
  from VerifyFilename_accepts_tampered_MAC[OF toy_fa_enabled len]
  obtain macB64 where
    auth: "AuthenticateFilename toy_hmac toy_fa ''ab''
             = Inr (''ab'' @ ''.'' @ ''AwMDAwMDAwMDAwMDAwMDAwMDAwMDAwMDAwMDAwMDAwM='')"
    and canon: "VerifyFilename toy_hmac toy_fa
                  (''ab'' @ ''.'' @ ''AwMDAwMDAwMDAwMDAwMDAwMDAwMDAwMDAwMDAwMDAwM='') = Inr ''ab''"
    and tam: "tamper_last_digit (''ab'' @ ''.'' @ ''AwMDAwMDAwMDAwMDAwMDAwMDAwMDAwMDAwMDAwMDAwM='')
                = ''ab'' @ ''.'' @ macB64"
    and split: "splitAuthenticatedName (''ab'' @ ''.'' @ macB64) = [''ab'', macB64]"
    and acc: "VerifyFilename toy_hmac toy_fa (''ab'' @ ''.'' @ macB64) = Inr ''ab''"
    unfolding enc by blast
  from tam have m: "macB64 = ''AwMDAwMDAwMDAwMDAwMDAwMDAwMDAwMDAwMDAwMDAwN=''"
    using toy_tampered by simp
  from toy_fa_enabled len auth canon toy_tampered split acc show ?thesis
    unfolding m by simp
qed

end
